theory Spec2Isabelle
  imports Main "HOL-Library.Sublist" "HOL-Library.AList"
begin

section \<open>The patch engine of \<^verbatim>\<open>src/core/patch.py\<close>\<close>

text \<open>
  A Python \<^verbatim>\<open>str\<close> is modelled as a \<^typ>\<open>string\<close>: a list of characters with code
  points below 256. \<^verbatim>\<open>s.startswith(p)\<close> is \<^term>\<open>prefix p s\<close>, \<^verbatim>\<open>s.endswith(p)\<close> is
  \<^term>\<open>suffix p s\<close>, \<^verbatim>\<open>s[n:]\<close> is \<^term>\<open>drop n s\<close>. Python's unbounded non-negative
  counters (indices, lengths) are \<^typ>\<open>nat\<close>. A dictionary that is only looked up is
  a map; a dictionary that is iterated is an association list in insertion order, where
  \<^verbatim>\<open>d[k] = v\<close> is \<^term>\<open>AList.update k v d\<close> (it replaces the value of a present key in
  place and appends an absent one).
\<close>

subsection \<open>Data model\<close>

datatype ActionType = ADD | DELETE | UPDATE

record FileChange =
  fc_type :: ActionType
  old_content :: "string option"
  new_content :: "string option"
  fc_move_path :: "string option"

type_synonym Commit = "(string \<times> FileChange) list"

record Chunk =
  orig_index :: nat
  del_lines :: "string list"
  ins_lines :: "string list"

record PatchAction =
  pa_type :: ActionType
  new_file :: "string option"
  chunks :: "Chunk list"
  move_path :: "string option"

type_synonym Patch = "(string \<times> PatchAction) list"

text \<open>
  Every \<^verbatim>\<open>raise\<close> of the module is a constructor; the comment gives the message of
  the \<^verbatim>\<open>DiffError\<close>. \<open>KeyError\<close> and \<open>IndexError\<close> are Python's own exceptions of a
  failed dictionary lookup and of a list index out of range, \<open>OpFailure\<close> an exception
  raised by an injected operation.
\<close>

datatype error =
    IndexOutOfRange nat nat         \<comment> \<open>\<^verbatim>\<open>Index: {index} >= {len(lines)}\<close>\<close>
  | DuplicatePath ActionType string \<comment> \<open>\<^verbatim>\<open>{Update,Add,Delete} File Error: Duplicate Path: {path}\<close>\<close>
  | MissingFile ActionType string   \<comment> \<open>\<^verbatim>\<open>{Update,Delete} File Error: Missing File: {path}\<close>\<close>
  | ParseError string               \<comment> \<open>\<^verbatim>\<open>Parse Error: {line}\<close>\<close>
  | ContextNotFound                 \<comment> \<open>\<^verbatim>\<open>Context not found\<close>\<close>
  | FailedToApplyChunk string       \<comment> \<open>\<^verbatim>\<open>Failed to apply chunk in {path}\<close>\<close>
  | InvalidActionType string ActionType \<comment> \<open>\<^verbatim>\<open>Invalid action type for {path}: {type}\<close>\<close>
  | MalformedHeader                 \<comment> \<open>\<^verbatim>\<open>Patch must start with *** Begin Patch\<close>\<close>
  | KeyError string
  | IndexError
  | OpFailure string

subsection \<open>Strings: \<^verbatim>\<open>"\n".join\<close> and \<^verbatim>\<open>str.splitlines\<close>\<close>

fun join :: "string \<Rightarrow> string list \<Rightarrow> string" where
  "join sep [] = []"
| "join sep [x] = x"
| "join sep (x # y # ys) = x @ sep @ join sep (y # ys)"

text \<open>
  The line boundaries of \<^verbatim>\<open>str.splitlines\<close> among the code points below 256:
  \<^verbatim>\<open>\n\<close>, \<^verbatim>\<open>\r\<close>, \<^verbatim>\<open>\x0b\<close>, \<^verbatim>\<open>\x0c\<close>, \<^verbatim>\<open>\x1c\<close>, \<^verbatim>\<open>\x1d\<close>, \<^verbatim>\<open>\x1e\<close>, \<^verbatim>\<open>\x85\<close>; \<^verbatim>\<open>\r\n\<close> is one
  boundary. (The boundaries U+2028 and U+2029 lie outside \<^typ>\<open>char\<close>.)
\<close>

definition is_linebreak :: "char \<Rightarrow> bool" where
  "is_linebreak c = (c \<in> set [CHR 0x0A, CHR 0x0D, CHR 0x0B, CHR 0x0C, CHR 0x1C, CHR 0x1D, CHR 0x1E, CHR 0x85])"

text \<open>
  \<open>split_acc acc s\<close>: \<open>acc\<close> holds, reversed, the characters of the line being read. A
  boundary closes the line; the end of the text closes a line only if it is not empty,
  so that a final terminator makes no empty last line.
\<close>

fun split_acc :: "string \<Rightarrow> string \<Rightarrow> string list" where
  "split_acc acc [] = (if acc = [] then [] else [rev acc])"
| "split_acc acc (c # cs) =
     (if c = CHR 0x0D then
        (case cs of
           d # ds \<Rightarrow> if d = CHR 0x0A then rev acc # split_acc [] ds else rev acc # split_acc [] cs
         | [] \<Rightarrow> rev acc # split_acc [] cs)
      else if is_linebreak c then rev acc # split_acc [] cs
      else split_acc (c # acc) cs)"

definition splitlines :: "string \<Rightarrow> string list" where
  "splitlines s = split_acc [] s"

subsection \<open>Context Locator: \<^verbatim>\<open>find_context\<close>\<close>

text \<open>
  The inner \<^verbatim>\<open>for j, ctx_line in enumerate(context)\<close> of one candidate \<open>i\<close>. It ends
  in one of two ways: the function returns from inside the loop (\<open>Return\<close>), or the loop
  is left with the flag \<^verbatim>\<open>match\<close> set or cleared (\<open>Flag\<close>).
\<close>

datatype scan = Return "nat \<times> nat" | Flag bool

function ctx_loop :: "string list \<Rightarrow> string list \<Rightarrow> bool \<Rightarrow> nat \<Rightarrow> nat \<Rightarrow> scan" where
  "ctx_loop lines context eof i j =
     (if length context \<le> j then Flag True
      else if length lines \<le> i + j then
        (if eof \<and> int j = int (length context) - 1 then Return (i, i + j) else Flag False)
      else if lines ! (i + j) \<noteq> context ! j then Flag False
      else ctx_loop lines context eof i (j + 1))"
  by pat_completeness auto
termination
  by (relation "measure (\<lambda>(lines, context, eof, i, j). length context - j)") auto

declare ctx_loop.simps [simp del]

text \<open>The outer \<^verbatim>\<open>for i in range(start, len(lines))\<close>, and the \<^verbatim>\<open>raise\<close> after it.\<close>

function find_loop :: "string list \<Rightarrow> string list \<Rightarrow> bool \<Rightarrow> nat \<Rightarrow> error + nat \<times> nat" where
  "find_loop lines context eof i =
     (if length lines \<le> i then Inl ContextNotFound
      else case ctx_loop lines context eof i 0 of
             Return r \<Rightarrow> Inr r
           | Flag True \<Rightarrow> Inr (i, i + length context)
           | Flag False \<Rightarrow> find_loop lines context eof (i + 1))"
  by pat_completeness auto
termination
  by (relation "measure (\<lambda>(lines, context, eof, i). length lines - i)") auto

declare find_loop.simps [simp del]

definition find_context :: "string list \<Rightarrow> string list \<Rightarrow> nat \<Rightarrow> bool \<Rightarrow> error + nat \<times> nat" where
  "find_context lines context start eof =
     (if context = [] then Inr (start, start) else find_loop lines context eof start)"

subsection \<open>Commit Builder: \<^verbatim>\<open>_get_updated_file\<close> and \<^verbatim>\<open>patch_to_commit\<close>\<close>

text \<open>
  The slice assignment \<^verbatim>\<open>xs[start:stop] = ys\<close> for non-negative bounds: both bounds
  are clamped to the length, and a stop below the start counts as the start.
\<close>

definition slice_assign :: "'a list \<Rightarrow> nat \<Rightarrow> nat \<Rightarrow> 'a list \<Rightarrow> 'a list" where
  "slice_assign xs start stop ys =
     (let s = min start (length xs); e = max s (min stop (length xs))
      in take s xs @ ys @ drop e xs)"

text \<open>
  The \<^verbatim>\<open>for chunk in action.chunks\<close> of \<^verbatim>\<open>_get_updated_file\<close>. The first argument
  is \<^verbatim>\<open>lines\<close>, which the loop never changes; the last is \<^verbatim>\<open>new_lines\<close>, the copy it
  assigns to. The \<^verbatim>\<open>except DiffError\<close> replaces the locator's error.
\<close>

fun apply_chunks :: "string list \<Rightarrow> string \<Rightarrow> Chunk list \<Rightarrow> string list \<Rightarrow> error + string list" where
  "apply_chunks orig_lines path [] new_lines = Inr new_lines"
| "apply_chunks orig_lines path (chunk # rest) new_lines =
     (case find_context orig_lines (del_lines chunk) 0 False of
        Inl e \<Rightarrow> Inl (FailedToApplyChunk path)
      | Inr (start, stop) \<Rightarrow>
          apply_chunks orig_lines path rest (slice_assign new_lines start stop (ins_lines chunk)))"

definition get_updated_file :: "string \<Rightarrow> PatchAction \<Rightarrow> string \<Rightarrow> error + string" where
  "get_updated_file text action path =
     (if pa_type action \<noteq> UPDATE then Inl (InvalidActionType path (pa_type action))
      else
        let lines = splitlines text in
        case apply_chunks lines path (chunks action) lines of
          Inl e \<Rightarrow> Inl e
        | Inr new_lines \<Rightarrow>
            if suffix ''\<newline>'' text then Inr (join ''\<newline>'' new_lines @ ''\<newline>'')
            else Inr (join ''\<newline>'' new_lines))"

text \<open>
  The \<^verbatim>\<open>for path, action in patch.actions.items()\<close> of \<^verbatim>\<open>patch_to_commit\<close>, with the
  commit built so far as last argument. \<^verbatim>\<open>orig[path]\<close> raises \<^verbatim>\<open>KeyError\<close> on an
  absent path.
\<close>

fun commit_loop :: "(string \<times> PatchAction) list \<Rightarrow> (string \<rightharpoonup> string) \<Rightarrow> Commit \<Rightarrow> error + Commit" where
  "commit_loop [] orig commit = Inr commit"
| "commit_loop ((path, action) # rest) orig commit =
     (case pa_type action of
        DELETE \<Rightarrow>
          (case orig path of
             None \<Rightarrow> Inl (KeyError path)
           | Some old \<Rightarrow>
               commit_loop rest orig
                 (AList.update path
                    \<lparr>fc_type = DELETE, old_content = Some old, new_content = None,
                     fc_move_path = None\<rparr> commit))
      | ADD \<Rightarrow>
          commit_loop rest orig
            (AList.update path
               \<lparr>fc_type = ADD, old_content = None, new_content = new_file action,
                fc_move_path = None\<rparr> commit)
      | UPDATE \<Rightarrow>
          (case orig path of
             None \<Rightarrow> Inl (KeyError path)
           | Some old \<Rightarrow>
               (case get_updated_file old action path of
                  Inl e \<Rightarrow> Inl e
                | Inr content \<Rightarrow>
                    commit_loop rest orig
                      (AList.update path
                         \<lparr>fc_type = UPDATE, old_content = Some old, new_content = Some content,
                          fc_move_path = move_path action\<rparr> commit))))"

definition patch_to_commit :: "Patch \<Rightarrow> (string \<rightharpoonup> string) \<Rightarrow> error + Commit" where
  "patch_to_commit patch orig = commit_loop patch orig []"

subsection \<open>Grammar Parser: class \<^verbatim>\<open>Parser\<close>\<close>

record Parser =
  current_files :: "string \<rightharpoonup> string"
  lines :: "string list"
  index :: nat
  patch :: Patch
  fuzz :: nat

text \<open>
  The argument \<^verbatim>\<open>prefixes\<close> (here \<open>prefs\<close>) is an optional list; \<^verbatim>\<open>None\<close> and the empty
  list are both false.
\<close>

definition is_done :: "Parser \<Rightarrow> string list \<Rightarrow> bool" where
  "is_done p prefs =
     (if length (lines p) \<le> index p then True
      else if prefs \<noteq> [] \<and> list_ex (\<lambda>q. prefix q (lines p ! index p)) prefs then True
      else False)"

definition startswith :: "Parser \<Rightarrow> string \<Rightarrow> bool" where
  "startswith p pre =
     (if length (lines p) \<le> index p then False else prefix pre (lines p ! index p))"

text \<open>\<^verbatim>\<open>read_str\<close> returns the text read and the parser, whose index it may have advanced.\<close>

definition read_str :: "Parser \<Rightarrow> string \<Rightarrow> bool \<Rightarrow> error + string \<times> Parser" where
  "read_str p pre return_everything =
     (if length (lines p) \<le> index p then Inl (IndexOutOfRange (index p) (length (lines p)))
      else if prefix pre (lines p ! index p) then
        Inr (if return_everything then lines p ! index p
             else drop (length pre) (lines p ! index p),
             p\<lparr>index := index p + 1\<rparr>)
      else Inr ([], p))"

text \<open>
  The body of the inner loop of \<^verbatim>\<open>parse_update_file\<close> after the \<^verbatim>\<open>break\<close>: where a
  non-empty hunk line goes.
\<close>

definition add_hunk_line :: "string \<Rightarrow> Chunk \<Rightarrow> Chunk" where
  "add_hunk_line line chunk =
     (if prefix ''-'' line then chunk\<lparr>del_lines := del_lines chunk @ [drop 1 line]\<rparr>
      else if prefix ''+'' line then chunk\<lparr>ins_lines := ins_lines chunk @ [drop 1 line]\<rparr>
      else if \<not> prefix ''@@ '' line then
        chunk\<lparr>del_lines := del_lines chunk @ [line], ins_lines := ins_lines chunk @ [line]\<rparr>
      else chunk)"

text \<open>
  The inner loop \<^verbatim>\<open>while not self.is_done(["@@ ", "*** "])\<close>. The source appends the
  chunk object to \<^verbatim>\<open>action.chunks\<close> first and fills it through the reference; the model
  fills the chunk and the caller appends it.
\<close>

function chunk_loop :: "Parser \<Rightarrow> Chunk \<Rightarrow> error + Chunk \<times> Parser" where
  "chunk_loop p chunk =
     (if is_done p [''@@ '', ''*** ''] then Inr (chunk, p)
      else case read_str p [] True of
             Inl e \<Rightarrow> Inl e
           | Inr (line, p') \<Rightarrow>
               if line = [] then Inr (chunk, p')
               else chunk_loop p' (add_hunk_line line chunk))"
  by pat_completeness auto
termination
  by (relation "measure (\<lambda>(p, chunk). length (lines p) - index p)")
     (auto simp: is_done_def read_str_def split: if_splits)

declare chunk_loop.simps [simp del]

text \<open>
  The outer loop \<^verbatim>\<open>while not self.is_done(["*** "])\<close> of \<^verbatim>\<open>parse_update_file\<close>. When
  the current line starts with neither \<^verbatim>\<open>@@ \<close> nor \<^verbatim>\<open>*** \<close> the body does nothing
  and the loop tests the same state again: the last branch. \<open>None\<close> is a run that never
  returns.
\<close>

partial_function (option) update_loop :: "Parser \<Rightarrow> PatchAction \<Rightarrow> (error + PatchAction \<times> Parser) option" where
  "update_loop p action =
     (if is_done p [''*** ''] then Some (Inr (action, p))
      else if startswith p ''@@ '' then
        (case chunk_loop (p\<lparr>index := index p + 1\<rparr>)
                \<lparr>orig_index = 0, del_lines = [], ins_lines = []\<rparr> of
           Inl e \<Rightarrow> Some (Inl e)
         | Inr (chunk, p') \<Rightarrow> update_loop p' (action\<lparr>chunks := chunks action @ [chunk]\<rparr>))
      else update_loop p action)"

declare update_loop.simps [code]

definition parse_update_file :: "Parser \<Rightarrow> string \<Rightarrow> (error + PatchAction \<times> Parser) option" where
  "parse_update_file p text =
     update_loop p \<lparr>pa_type = UPDATE, new_file = None, chunks = [], move_path = None\<rparr>"

text \<open>The loop of \<^verbatim>\<open>parse_add_file\<close>, with the local list \<^verbatim>\<open>lines\<close> as second argument.\<close>

function add_loop :: "Parser \<Rightarrow> string list \<Rightarrow> error + string list \<times> Parser" where
  "add_loop p acc =
     (if is_done p [''*** ''] then Inr (acc, p)
      else case read_str p [] False of
             Inl e \<Rightarrow> Inl e
           | Inr (line, p') \<Rightarrow> add_loop p' (if line \<noteq> [] then acc @ [line] else acc))"
  by pat_completeness auto
termination
  by (relation "measure (\<lambda>(p, acc). length (lines p) - index p)")
     (auto simp: is_done_def read_str_def split: if_splits)

declare add_loop.simps [simp del]

definition parse_add_file :: "Parser \<Rightarrow> error + PatchAction \<times> Parser" where
  "parse_add_file p =
     (case add_loop p [] of
        Inl e \<Rightarrow> Inl e
      | Inr (acc, p') \<Rightarrow>
          Inr (\<lparr>pa_type = ADD, new_file = Some (join ''\<newline>'' acc), chunks = [],
                move_path = None\<rparr>, p'))"

text \<open>
  One pass through the body of the loop of \<^verbatim>\<open>parse\<close>, up to its \<^verbatim>\<open>continue\<close> or
  \<^verbatim>\<open>raise\<close>. \<^verbatim>\<open>path in self.patch.actions\<close> is membership among the keys.
  \<^verbatim>\<open>read_str\<close> advances the index also when it returns an empty path, so the last
  \<^verbatim>\<open>raise\<close> may read \<^verbatim>\<open>self.lines[self.index]\<close> past the end of the list, which is
  Python's \<^verbatim>\<open>IndexError\<close>.
\<close>

definition parse_step :: "Parser \<Rightarrow> (error + Parser) option" where
  "parse_step p =
     (case read_str p ''*** Update File: '' False of
        Inl e \<Rightarrow> Some (Inl e)
      | Inr (path, p1) \<Rightarrow>
         (if path \<noteq> [] then
            (if path \<in> fst ` set (patch p1) then Some (Inl (DuplicatePath UPDATE path))
             else
               (case read_str p1 ''*** Move to: '' False of
                  Inl e \<Rightarrow> Some (Inl e)
                | Inr (move_to, p2) \<Rightarrow>
                   (case current_files p2 path of
                      None \<Rightarrow> Some (Inl (MissingFile UPDATE path))
                    | Some text \<Rightarrow>
                       (case parse_update_file p2 text of
                          None \<Rightarrow> None
                        | Some (Inl e) \<Rightarrow> Some (Inl e)
                        | Some (Inr (action, p3)) \<Rightarrow>
                            Some (Inr (p3\<lparr>patch :=
                              AList.update path
                                (if move_to \<noteq> [] then action\<lparr>move_path := Some move_to\<rparr>
                                 else action)
                                (patch p3)\<rparr>))))))
          else
            (case read_str p1 ''*** Add File: '' False of
               Inl e \<Rightarrow> Some (Inl e)
             | Inr (path, p2) \<Rightarrow>
                (if path \<noteq> [] then
                   (if path \<in> fst ` set (patch p2) then Some (Inl (DuplicatePath ADD path))
                    else
                      (case parse_add_file p2 of
                         Inl e \<Rightarrow> Some (Inl e)
                       | Inr (action, p3) \<Rightarrow>
                           Some (Inr (p3\<lparr>patch := AList.update path action (patch p3)\<rparr>))))
                 else
                   (case read_str p2 ''*** Delete File: '' False of
                      Inl e \<Rightarrow> Some (Inl e)
                    | Inr (path, p3) \<Rightarrow>
                       (if path \<noteq> [] then
                          (if path \<in> fst ` set (patch p3)
                           then Some (Inl (DuplicatePath DELETE path))
                           else if current_files p3 path = None
                           then Some (Inl (MissingFile DELETE path))
                           else
                             Some (Inr (p3\<lparr>patch :=
                               AList.update path
                                 \<lparr>pa_type = DELETE, new_file = None, chunks = [],
                                  move_path = None\<rparr>
                                 (patch p3)\<rparr>)))
                        else if index p3 < length (lines p3)
                        then Some (Inl (ParseError (lines p3 ! index p3)))
                        else Some (Inl IndexError)))))))"

text \<open>
  The loop \<^verbatim>\<open>while not self.is_done(["*** End Patch"])\<close> of \<^verbatim>\<open>parse\<close>. It is a
  partial function because its body calls \<open>parse_update_file\<close>.
\<close>

partial_function (option) parse_loop :: "Parser \<Rightarrow> (error + Parser) option" where
  "parse_loop p =
     (if is_done p [''*** End Patch''] then Some (Inr p)
      else
        (case parse_step p of
           None \<Rightarrow> None
         | Some (Inl e) \<Rightarrow> Some (Inl e)
         | Some (Inr p') \<Rightarrow> parse_loop p'))"

declare parse_loop.simps [code]

definition parse :: "Parser \<Rightarrow> (error + Parser) option" where
  "parse p =
     parse_loop (if startswith p ''*** Begin Patch'' then p\<lparr>index := index p + 1\<rparr> else p)"

text \<open>\<^verbatim>\<open>Parser(orig, lines)\<close>\<close>

definition new_parser :: "(string \<rightharpoonup> string) \<Rightarrow> string list \<Rightarrow> Parser" where
  "new_parser files ls =
     \<lparr>current_files = files, lines = ls, index = 0, patch = [], fuzz = 0\<rparr>"

definition text_to_patch :: "string \<Rightarrow> (string \<rightharpoonup> string) \<Rightarrow> (error + Patch \<times> nat) option" where
  "text_to_patch text orig =
     (if \<not> prefix ''*** Begin Patch'' text then Some (Inl MalformedHeader)
      else case parse (new_parser orig (splitlines text)) of
             None \<Rightarrow> None
           | Some (Inl e) \<Rightarrow> Some (Inl e)
           | Some (Inr p) \<Rightarrow> Some (Inr (patch p, fuzz p)))"

definition identify_files_needed :: "string \<Rightarrow> string list" where
  "identify_files_needed text =
     List.map_filter
       (\<lambda>line. if prefix ''*** Update File: '' line
                then Some (drop (length ''*** Update File: '') line)
                else if prefix ''*** Delete File: '' line
                then Some (drop (length ''*** Delete File: '') line)
                else None)
       (splitlines text)"

definition identify_files_added :: "string \<Rightarrow> string list" where
  "identify_files_added text =
     List.map_filter
       (\<lambda>line. if prefix ''*** Add File: '' line
                then Some (drop (length ''*** Add File: '') line)
                else None)
       (splitlines text)"

subsection \<open>Applicator: \<^verbatim>\<open>process_patch\<close>\<close>

text \<open>
  The injected operations act on a world \<open>'w\<close> that the engine does not look into. An
  operation returns its value or the exception it raised, and the world it leaves.
\<close>

type_synonym ('a, 'w) io = "'w \<Rightarrow> (error + 'a) \<times> 'w"

text \<open>
  The comprehension \<^verbatim>\<open>{p: open_fn(p) for p in paths}\<close>: one call per listed path, in
  order, a later entry of a repeated path replacing the earlier one.
\<close>

fun open_all :: "(string \<Rightarrow> (string, 'w) io) \<Rightarrow> string list \<Rightarrow> (string \<rightharpoonup> string) \<Rightarrow> (string \<rightharpoonup> string, 'w) io" where
  "open_all open_fn [] orig w = (Inr orig, w)"
| "open_all open_fn (p # ps) orig w =
     (case open_fn p w of
        (Inl e, w') \<Rightarrow> (Inl e, w')
      | (Inr content, w') \<Rightarrow> open_all open_fn ps (orig(p \<mapsto> content)) w')"

text \<open>\<^verbatim>\<open>change.new_content or ""\<close>\<close>

definition content_or_empty :: "string option \<Rightarrow> string" where
  "content_or_empty c = (case c of None \<Rightarrow> [] | Some s \<Rightarrow> s)"

text \<open>\<^verbatim>\<open>if change.move_path\<close>: a path that is neither \<^verbatim>\<open>None\<close> nor empty.\<close>

definition truthy :: "string option \<Rightarrow> bool" where
  "truthy c = (case c of None \<Rightarrow> False | Some s \<Rightarrow> s \<noteq> [])"

text \<open>The body of the loop over \<^verbatim>\<open>commit.changes.items()\<close> for one change.\<close>

definition apply_change :: "(string \<Rightarrow> string \<Rightarrow> (unit, 'w) io) \<Rightarrow> (string \<Rightarrow> (unit, 'w) io) \<Rightarrow> string \<Rightarrow> FileChange \<Rightarrow> (unit, 'w) io" where
  "apply_change write_fn remove_fn path change w =
     (case fc_type change of
        DELETE \<Rightarrow> remove_fn path w
      | ADD \<Rightarrow> write_fn path (content_or_empty (new_content change)) w
      | UPDATE \<Rightarrow>
          if truthy (fc_move_path change) then
            (case write_fn (the (fc_move_path change)) (content_or_empty (new_content change)) w of
               (Inl e, w') \<Rightarrow> (Inl e, w')
             | (Inr u, w') \<Rightarrow> remove_fn path w')
          else write_fn path (content_or_empty (new_content change)) w)"

fun apply_changes :: "(string \<Rightarrow> string \<Rightarrow> (unit, 'w) io) \<Rightarrow> (string \<Rightarrow> (unit, 'w) io) \<Rightarrow> Commit \<Rightarrow> (unit, 'w) io" where
  "apply_changes write_fn remove_fn [] w = (Inr (), w)"
| "apply_changes write_fn remove_fn ((path, change) # rest) w =
     (case apply_change write_fn remove_fn path change w of
        (Inl e, w') \<Rightarrow> (Inl e, w')
      | (Inr u, w') \<Rightarrow> apply_changes write_fn remove_fn rest w')"

text \<open>\<open>None\<close>: the call never returns, because parsing does not.\<close>

definition process_patch :: "string \<Rightarrow> (string \<Rightarrow> (string, 'w) io) \<Rightarrow> (string \<Rightarrow> string \<Rightarrow> (unit, 'w) io) \<Rightarrow> (string \<Rightarrow> (unit, 'w) io) \<Rightarrow> 'w \<Rightarrow> ((error + string) \<times> 'w) option" where
  "process_patch text open_fn write_fn remove_fn w =
     (if \<not> prefix ''*** Begin Patch'' text then Some (Inl MalformedHeader, w)
      else
        (case open_all open_fn (identify_files_needed text) Map.empty w of
           (Inl e, w1) \<Rightarrow> Some (Inl e, w1)
         | (Inr orig, w1) \<Rightarrow>
            (case text_to_patch text orig of
               None \<Rightarrow> None
             | Some (Inl e) \<Rightarrow> Some (Inl e, w1)
             | Some (Inr (parsed, fz)) \<Rightarrow>
                (case patch_to_commit parsed orig of
                   Inl e \<Rightarrow> Some (Inl e, w1)
                 | Inr commit \<Rightarrow>
                    (case apply_changes write_fn remove_fn commit w1 of
                       (Inl e, w2) \<Rightarrow> Some (Inl e, w2)
                     | (Inr u, w2) \<Rightarrow> Some (Inr ''Done!'', w2))))))"

subsection \<open>Notions of the specification\<close>

text \<open>
  The words of the specification of the Context Locator, as predicates on a candidate
  index \<open>i\<close>: the context occurs at \<open>i\<close> as a contiguous run of lines; the lines from
  \<open>i\<close> to the end of the file are the context without its last line; the candidate is
  accepted.
\<close>

definition occurs_at :: "string list \<Rightarrow> string list \<Rightarrow> nat \<Rightarrow> bool" where
  "occurs_at ls ctx i = (take (length ctx) (drop i ls) = ctx)"

definition short_by_last :: "string list \<Rightarrow> string list \<Rightarrow> nat \<Rightarrow> bool" where
  "short_by_last ls ctx i = (drop i ls = butlast ctx)"

definition accepted :: "string list \<Rightarrow> string list \<Rightarrow> bool \<Rightarrow> nat \<Rightarrow> bool" where
  "accepted ls ctx eof i = (occurs_at ls ctx i \<or> eof \<and> short_by_last ls ctx i)"

text \<open>
  The words of the specification of the Commit Builder. \<open>first_match orig ctx\<close> is the
  first index of the original lines at which the context occurs (index 0 for an empty
  context), if there is one. \<open>splice_at buf (s, c)\<close> replaces, in the working copy, the
  span that starts at \<open>s\<close> and is as long as the chunk's \<open>del_lines\<close> by its \<open>ins_lines\<close>.
  \<open>rebuilt text ls\<close> joins the lines and keeps the final newline of the original text.
\<close>

definition first_match :: "string list \<Rightarrow> string list \<Rightarrow> nat option" where
  "first_match orig ctx =
     (if ctx = [] then Some 0 else List.find (occurs_at orig ctx) [0..<length orig])"

definition splice_at :: "string list \<Rightarrow> nat \<times> Chunk \<Rightarrow> string list" where
  "splice_at buf sc =
     take (fst sc) buf @ ins_lines (snd sc) @ drop (fst sc + length (del_lines (snd sc))) buf"

definition rebuilt :: "string \<Rightarrow> string list \<Rightarrow> string" where
  "rebuilt text ls = join ''\<newline>'' ls @ (if suffix ''\<newline>'' text then ''\<newline>'' else [])"

text \<open>
  An edit \<open>(s, c)\<close> is a chunk \<open>c\<close> with the index \<open>s\<close> at which its slice of the original
  lines starts; the slice is as long as its \<open>del_lines\<close>.
  \<open>replace_from k orig es\<close>: the original lines from index \<open>k\<close> on, with the slice of
  every edit of \<open>es\<close> replaced by the chunk's \<open>ins_lines\<close>; the edits are listed from the
  top of the file to the bottom. \<open>ascending k es\<close>: the slices are listed from the top to
  the bottom, start at or after \<open>k\<close> and do not overlap. \<open>slices_end k es\<close> is the end of the
  last slice, and \<open>replaced_part k orig es\<close> the replaced text up to there. \<open>growth es\<close> is the
  number of lines that the edits add to the file.
\<close>

fun replace_from :: "nat \<Rightarrow> string list \<Rightarrow> (nat \<times> Chunk) list \<Rightarrow> string list" where
  "replace_from k orig [] = drop k orig"
| "replace_from k orig ((s, c) # es) =
     take (s - k) (drop k orig) @ ins_lines c @ replace_from (s + length (del_lines c)) orig es"

fun ascending :: "nat \<Rightarrow> (nat \<times> Chunk) list \<Rightarrow> bool" where
  "ascending k [] = True"
| "ascending k ((s, c) # es) = (k \<le> s \<and> ascending (s + length (del_lines c)) es)"



definition growth :: "(nat \<times> Chunk) list \<Rightarrow> int" where
  "growth es =
     sum_list (map (\<lambda>e. int (length (ins_lines (snd e))) - int (length (del_lines (snd e)))) es)"

text \<open>
  \<open>lies_above e a\<close>: the slice of the edit \<open>a\<close> lies above the slice of \<open>e\<close> in the file
  (of two empty slices at one index, neither lies above the other). \<open>put e as\<close> puts
  the edit \<open>e\<close> at its place among the edits \<open>as\<close>, which are listed from the top to the
  bottom. \<open>arranged as es\<close>: the edits \<open>es\<close>, taken in the order in which they are
  applied, put at their places among \<open>as\<close>. \<open>unshifted as es\<close>: when each edit of \<open>es\<close>
  is applied, its slice overlaps no slice of the edits before it, and the edits before
  it whose slices lie above it have added, in total, no line to the file.
\<close>

definition lies_above :: "nat \<times> Chunk \<Rightarrow> nat \<times> Chunk \<Rightarrow> bool" where
  "lies_above e a =
     (fst a + length (del_lines (snd a)) \<le> fst e \<and>
      (fst a < fst e \<or> del_lines (snd a) \<noteq> [] \<or> del_lines (snd e) \<noteq> []))"

definition put :: "nat \<times> Chunk \<Rightarrow> (nat \<times> Chunk) list \<Rightarrow> (nat \<times> Chunk) list" where
  "put e as = takeWhile (lies_above e) as @ e # dropWhile (lies_above e) as"


fun unshifted :: "(nat \<times> Chunk) list \<Rightarrow> (nat \<times> Chunk) list \<Rightarrow> bool" where
  "unshifted as [] = True"
| "unshifted as (e # es) =
     (ascending 0 (put e as) \<and> growth (takeWhile (lies_above e) as) = 0 \<and>
      unshifted (put e as) es)"

text \<open>
  The words of the specification of the Grammar Parser. \<open>add_body p\<close> is the body of an
  Add File directive: the lines from the current one up to the next line that starts
  with \<open>*** \<close>. \<open>hunk_body p\<close> is what the parser takes as the body of a hunk: the lines
  from the current one up to the next line that is empty or starts with \<open>@@ \<close> or
  \<open>*** \<close>. \<open>hunk_del\<close> and \<open>hunk_ins\<close> are the lines that a hunk body contributes to
  \<open>del_lines\<close> and to \<open>ins_lines\<close>.
\<close>

definition add_body :: "Parser \<Rightarrow> string list" where
  "add_body p = takeWhile (\<lambda>l. \<not> prefix ''*** '' l) (drop (index p) (lines p))"

definition hunk_body :: "Parser \<Rightarrow> string list" where
  "hunk_body p =
     takeWhile (\<lambda>l. l \<noteq> [] \<and> \<not> prefix ''@@ '' l \<and> \<not> prefix ''*** '' l)
       (drop (index p) (lines p))"

definition hunk_del :: "string list \<Rightarrow> string list" where
  "hunk_del body =
     map (\<lambda>l. if prefix ''-'' l then drop 1 l else l) (filter (\<lambda>l. \<not> prefix ''+'' l) body)"

definition hunk_ins :: "string list \<Rightarrow> string list" where
  "hunk_ins body =
     map (\<lambda>l. if prefix ''+'' l then drop 1 l else l) (filter (\<lambda>l. \<not> prefix ''-'' l) body)"

text \<open>An empty line right after the hunk body is read and dropped by the inner loop.\<close>

definition blank_follows :: "Parser \<Rightarrow> bool" where
  "blank_follows p =
     (case drop (index p + length (hunk_body p)) (lines p) of [] \<Rightarrow> False | l # ls \<Rightarrow> l = [])"

text \<open>
  \<open>directive_at p k path\<close>: the current line of the parser is the directive of kind \<open>k\<close>
  for the path. \<open>passes n p\<close>: the state of the loop of \<open>parse\<close> after \<open>n\<close> more passes
  from state \<open>p\<close>, if each of them parses its directive without error.
\<close>

definition marker :: "ActionType \<Rightarrow> string" where
  "marker k =
     (case k of UPDATE \<Rightarrow> ''*** Update File: '' | ADD \<Rightarrow> ''*** Add File: ''
      | DELETE \<Rightarrow> ''*** Delete File: '')"

definition directive_at :: "Parser \<Rightarrow> ActionType \<Rightarrow> string \<Rightarrow> bool" where
  "directive_at p k path =
     (index p < length (lines p) \<and> lines p ! index p = marker k @ path \<and> path \<noteq> [])"

fun passes :: "nat \<Rightarrow> Parser \<Rightarrow> Parser option" where
  "passes 0 p = Some p"
| "passes (Suc n) p =
     (if is_done p [''*** End Patch''] then None
      else case parse_step p of Some (Inr p') \<Rightarrow> passes n p' | _ \<Rightarrow> None)"

text \<open>
  A record of the calls of the injected operations, to state the order of the calls:
  the world is the list of the calls made so far, and no call fails.
\<close>

datatype call = ReadCall string | WriteCall string string | RemoveCall string

definition log_open :: "string \<Rightarrow> string \<Rightarrow> (string, call list) io" where
  "log_open content path log = (Inr content, log @ [ReadCall path])"

definition log_write :: "string \<Rightarrow> string \<Rightarrow> (unit, call list) io" where
  "log_write path content log = (Inr (), log @ [WriteCall path content])"

definition log_remove :: "string \<Rightarrow> (unit, call list) io" where
  "log_remove path log = (Inr (), log @ [RemoveCall path])"

section \<open>Properties\<close>

subsection \<open>The Context Locator\<close>

lemma ctx_loop_char:
  "j \<le> length ctx \<Longrightarrow>
   ctx_loop ls ctx eof i j =
     (if take (length ctx - j) (drop (i + j) ls) = drop j ctx then Flag True
      else if eof \<and> j < length ctx \<and> drop (i + j) ls = butlast (drop j ctx)
      then Return (i, i + j + (length (drop (i + j) ls))) else Flag False)"
proof (induction ls ctx eof i j rule: ctx_loop.induct)
  case (1 ls ctx eof i j)
  show ?case
  proof (cases "length ctx \<le> j")
    case True
    with "1.prems" show ?thesis by (subst ctx_loop.simps) simp
  next
    case False
    hence jlt: "j < length ctx" by simp
    hence dj: "drop j ctx = ctx ! j # drop (Suc j) ctx" by (simp add: Cons_nth_drop_Suc)
    show ?thesis
    proof (cases "length ls \<le> i + j")
      case True
      hence e: "drop (i + j) ls = []" by simp
      have "([] = butlast (drop j ctx)) = (int j = int (length ctx) - 1)"
        using jlt by (auto simp: dj)
      thus ?thesis using jlt True e by (subst ctx_loop.simps) (auto simp: dj)
    next
      case F2: False
      hence dl: "drop (i + j) ls = ls ! (i + j) # drop (Suc (i + j)) ls"
        by (simp add: Cons_nth_drop_Suc)
      have tk: "length ctx - j = Suc (length ctx - Suc j)" using jlt by simp
      show ?thesis
      proof (cases "ls ! (i + j) = ctx ! j")
        case True
        have ih: "ctx_loop ls ctx eof i (j + 1) = (if take (length ctx - (j + 1)) (drop (i + (j + 1)) ls) = drop (j + 1) ctx then Flag True
      else if eof \<and> j + 1 < length ctx \<and> drop (i + (j + 1)) ls = butlast (drop (j + 1) ctx)
      then Return (i, i + (j + 1) + (length (drop (i + (j + 1)) ls))) else Flag False)"
          using "1.IH"[OF False F2] True jlt by simp
        show ?thesis
          apply (subst ctx_loop.simps)
          using jlt F2 True
          apply (simp only: ih)
          apply (simp add: dj dl tk)
          done
      next
        case F3: False
        thus ?thesis using jlt F2 by (subst ctx_loop.simps) (auto simp: dj dl tk)
      qed
    qed
  qed
qed


lemma occurs_not_short: "ctx \<noteq> [] \<Longrightarrow> occurs_at ls ctx i \<Longrightarrow> \<not> short_by_last ls ctx i"
proof
  assume a: "ctx \<noteq> []" "occurs_at ls ctx i" "short_by_last ls ctx i"
  from a(2) have "length (take (length ctx) (drop i ls)) = length ctx" by (simp add: occurs_at_def)
  hence "length ctx \<le> length ls - i" by simp
  moreover from a(3) have "length (drop i ls) = length (butlast ctx)"
    unfolding short_by_last_def by (rule arg_cong)
  hence "length ls - i = length ctx - 1" by simp
  moreover from a(1) have "0 < length ctx" by simp
  ultimately show False by linarith
qed

lemma ctx_loop_0:
  "ctx_loop ls ctx eof i 0 =
     (if occurs_at ls ctx i then Flag True
      else if eof \<and> ctx \<noteq> [] \<and> short_by_last ls ctx i then Return (i, i + length (drop i ls))
      else Flag False)"
  using ctx_loop_char[of 0 ctx ls eof i] by (simp add: occurs_at_def short_by_last_def)

lemma skip_rejected:
  assumes "\<not> P (s::nat)"
  shows "(\<forall>k. s + 1 \<le> k \<and> k < n \<longrightarrow> \<not> P k) = (\<forall>k. s \<le> k \<and> k < n \<longrightarrow> \<not> P k)"
proof
  assume h: "\<forall>k. s + 1 \<le> k \<and> k < n \<longrightarrow> \<not> P k"
  show "\<forall>k. s \<le> k \<and> k < n \<longrightarrow> \<not> P k"
  proof (intro allI impI)
    fix k assume k: "s \<le> k \<and> k < n"
    show "\<not> P k"
    proof (cases "k = s")
      case True
      thus ?thesis using assms by simp
    next
      case False
      hence "s + 1 \<le> k" using k by simp
      thus ?thesis using h k by blast
    qed
  qed
next
  assume h: "\<forall>k. s \<le> k \<and> k < n \<longrightarrow> \<not> P k"
  show "\<forall>k. s + 1 \<le> k \<and> k < n \<longrightarrow> \<not> P k"
  proof (intro allI impI)
    fix k assume "s + 1 \<le> k \<and> k < n"
    hence "s \<le> k \<and> k < n" by simp
    thus "\<not> P k" using h by blast
  qed
qed

lemma find_loop_Inr:
  "ctx \<noteq> [] \<Longrightarrow>
   (find_loop ls ctx eof s = Inr (i, e)) =
     (s \<le> i \<and> i < length ls \<and> (\<forall>k. s \<le> k \<and> k < i \<longrightarrow> \<not> accepted ls ctx eof k) \<and>
      (occurs_at ls ctx i \<and> e = i + length ctx \<or> eof \<and> short_by_last ls ctx i \<and> e = length ls))"
proof (induction ls ctx eof s rule: find_loop.induct)
  case (1 ls ctx eof s)
  show ?case
  proof (cases "length ls \<le> s")
    case True
    thus ?thesis by (subst find_loop.simps) auto
  next
    case False
    hence slt: "s < length ls" by simp
    show ?thesis
    proof (cases "accepted ls ctx eof s")
      case True
      have min: "(s \<le> i \<and> (\<forall>k. s \<le> k \<and> k < i \<longrightarrow> \<not> accepted ls ctx eof k)) = (i = s)"
      proof (cases "i = s")
        case True
        thus ?thesis by auto
      next
        case neq: False
        have "\<exists>k. s \<le> k \<and> k < i \<and> accepted ls ctx eof k" if "s \<le> i"
          using that neq True by (intro exI[of _ s]) simp
        thus ?thesis using neq by blast
      qed
      show ?thesis
      proof (cases "occurs_at ls ctx s")
        case occ: True
        hence "find_loop ls ctx eof s = Inr (s, s + length ctx)"
          using slt by (subst find_loop.simps) (simp add: ctx_loop_0)
        thus ?thesis using occ slt occurs_not_short[OF "1.prems" occ] min by auto
      next
        case nocc: False
        with True have sh: "eof" "short_by_last ls ctx s" by (auto simp: accepted_def)
        hence "find_loop ls ctx eof s = Inr (s, length ls)"
          using slt nocc "1.prems" by (subst find_loop.simps) (simp add: ctx_loop_0)
        thus ?thesis using nocc sh slt min by auto
      qed
    next
      case nacc: False
      hence c: "ctx_loop ls ctx eof s 0 = Flag False"
        by (auto simp: ctx_loop_0 accepted_def)
      have step: "find_loop ls ctx eof s = find_loop ls ctx eof (s + 1)"
        using slt c by (subst find_loop.simps) simp
      have ih: "(find_loop ls ctx eof (s + 1) = Inr (i, e)) =
     (s + 1 \<le> i \<and> i < length ls \<and> (\<forall>k. s + 1 \<le> k \<and> k < i \<longrightarrow> \<not> accepted ls ctx eof k) \<and>
      (occurs_at ls ctx i \<and> e = i + length ctx \<or> eof \<and> short_by_last ls ctx i \<and> e = length ls))"
        using "1.IH"[OF False c _ "1.prems"] by simp
      have q: "(s + 1 \<le> i \<and> (\<forall>k. s + 1 \<le> k \<and> k < i \<longrightarrow> \<not> accepted ls ctx eof k)) =
               (s \<le> i \<and> i \<noteq> s \<and> (\<forall>k. s \<le> k \<and> k < i \<longrightarrow> \<not> accepted ls ctx eof k))"
      proof -
        have a: "(s + 1 \<le> i) = (s \<le> i \<and> i \<noteq> s)" by arith
        have b: "(\<forall>k. s + 1 \<le> k \<and> k < i \<longrightarrow> \<not> accepted ls ctx eof k) =
                 (\<forall>k. s \<le> k \<and> k < i \<longrightarrow> \<not> accepted ls ctx eof k)"
          using nacc by (rule skip_rejected)
        show ?thesis unfolding a b by blast
      qed
      have r: "(occurs_at ls ctx i \<and> e = i + length ctx \<or> eof \<and> short_by_last ls ctx i \<and> e = length ls) \<Longrightarrow> i \<noteq> s"
        using nacc by (auto simp: accepted_def)
      show ?thesis unfolding step ih using q r by blast
    qed
  qed
qed

lemma find_loop_Inl:
  "ctx \<noteq> [] \<Longrightarrow>
   (find_loop ls ctx eof s = Inl err) =
     (err = ContextNotFound \<and> (\<forall>k. s \<le> k \<and> k < length ls \<longrightarrow> \<not> accepted ls ctx eof k))"
proof (induction ls ctx eof s rule: find_loop.induct)
  case (1 ls ctx eof s)
  show ?case
  proof (cases "length ls \<le> s")
    case True
    thus ?thesis by (subst find_loop.simps) auto
  next
    case False
    hence slt: "s < length ls" by simp
    show ?thesis
    proof (cases "accepted ls ctx eof s")
      case True
      hence "\<exists>r. find_loop ls ctx eof s = Inr r"
        using slt "1.prems" by (subst find_loop.simps) (auto simp: ctx_loop_0 accepted_def)
      thus ?thesis using True slt by auto
    next
      case nacc: False
      hence c: "ctx_loop ls ctx eof s 0 = Flag False"
        by (auto simp: ctx_loop_0 accepted_def)
      have step: "find_loop ls ctx eof s = find_loop ls ctx eof (s + 1)"
        using slt c by (subst find_loop.simps) simp
      have b: "(\<forall>k. s + 1 \<le> k \<and> k < length ls \<longrightarrow> \<not> accepted ls ctx eof k) =
                 (\<forall>k. s \<le> k \<and> k < length ls \<longrightarrow> \<not> accepted ls ctx eof k)"
          using nacc by (rule skip_rejected)
      show ?thesis unfolding step using "1.IH"[OF False c _ "1.prems"] b by simp
    qed
  qed
qed

text \<open>
  Claim C4. For a non-empty context, \<open>find_context\<close> returns \<open>(i, e)\<close> exactly when \<open>i\<close>
  is the first index from \<open>start\<close> on, below the number of lines, whose window is accepted:
  either the context occurs there line by line, and \<open>e = i + length ctx\<close>; or \<open>eof\<close> is
  set and the window runs past the end of the file with exactly the last context line
  missing, and \<open>e\<close> is the end of the file. It raises \<open>ContextNotFound\<close> exactly when no
  index is accepted. An empty context is found at \<open>start\<close> with an empty span.
\<close>

theorem find_context_spec:
  "find_context ls [] start eof = Inr (start, start) \<and>
   (ctx \<noteq> [] \<longrightarrow>
     (find_context ls ctx start eof = Inr (i, e)) =
       (start \<le> i \<and> i < length ls \<and>
        (\<forall>k. start \<le> k \<and> k < i \<longrightarrow> \<not> accepted ls ctx eof k) \<and>
        (occurs_at ls ctx i \<and> e = i + length ctx \<or>
         eof \<and> short_by_last ls ctx i \<and> e = length ls))) \<and>
   (ctx \<noteq> [] \<longrightarrow>
     (find_context ls ctx start eof = Inl err) =
       (err = ContextNotFound \<and>
        (\<forall>k. start \<le> k \<and> k < length ls \<longrightarrow> \<not> accepted ls ctx eof k)))"
  by (simp add: find_context_def find_loop_Inr find_loop_Inl)

theorem find_context_spec_witness:
  "find_context [''a'', ''b'', ''c''] [] 2 False = Inr (2, 2) \<and>
   find_context [''a'', ''b'', ''c'', ''b'', ''c''] [''b'', ''c''] 0 False = Inr (1, 3) \<and>
   find_context [''a'', ''c''] [''c'', ''d''] 0 True = Inr (1, 2) \<and>
   find_context [''c''] [''c'', ''d''] 0 False = Inl ContextNotFound"
proof -
  have 1: "find_context [''a'', ''b'', ''c''] [] 2 False = Inr (2, 2)"
    using find_context_spec[where ls = "[''a'', ''b'', ''c'']" and start = 2 and eof = False]
    by simp
  have 2: "find_context [''a'', ''b'', ''c'', ''b'', ''c''] [''b'', ''c''] 0 False = Inr (1, 3)"
    using find_context_spec[where ls = "[''a'', ''b'', ''c'', ''b'', ''c'']" and start = 0
        and eof = False and ctx = "[''b'', ''c'']" and i = 1 and e = 3]
    by (simp add: accepted_def occurs_at_def short_by_last_def)
  have 3: "find_context [''a'', ''c''] [''c'', ''d''] 0 True = Inr (1, 2)"
    using find_context_spec[where ls = "[''a'', ''c'']" and start = 0
        and eof = True and ctx = "[''c'', ''d'']" and i = 1 and e = 2]
    by (simp add: accepted_def occurs_at_def short_by_last_def)
  have 4: "find_context [''c''] [''c'', ''d''] 0 False = Inl ContextNotFound"
    using find_context_spec[where ls = "[''c'']" and start = 0
        and eof = False and ctx = "[''c'', ''d'']" and err = ContextNotFound]
    by (simp add: accepted_def occurs_at_def short_by_last_def)
  show ?thesis using 1 2 3 4 by blast
qed

subsection \<open>End-of-file tolerance\<close>

lemma short_unique:
  assumes "i < length ls" "short_by_last ls ctx i" "short_by_last ls ctx k"
  shows "k = i"
proof -
  from assms(2,3) have "drop k ls = drop i ls" by (simp add: short_by_last_def)
  hence "length (drop k ls) = length (drop i ls)" by (rule arg_cong)
  thus ?thesis using assms(1) by simp
qed

text \<open>
  Claim C5, amended. Let the context be the lines of the file from index \<open>i\<close> to its end
  followed by one more line, with \<open>i\<close> at or after the start offset and inside the file.
  With end-of-file tolerance allowed the locator does not raise: it returns the window at
  the tail, \<open>(i, length ls)\<close>, unless the whole context occurs at an earlier index from the
  offset on, in which case it returns the first such occurrence: no index between the
  offset and the returned one holds an occurrence.
\<close>

theorem eof_tolerance_tail:
  assumes "start \<le> i" and "i < length ls" and "ctx = drop i ls @ [x]"
  shows "\<exists>s e. find_context ls ctx start True = Inr (s, e) \<and> start \<le> s \<and> s \<le> i \<and>
           (if \<exists>k. start \<le> k \<and> k < i \<and> occurs_at ls ctx k
            then s < i \<and> occurs_at ls ctx s \<and> e = s + length ctx \<and>
                 (\<forall>k. start \<le> k \<and> k < s \<longrightarrow> \<not> occurs_at ls ctx k)
            else s = i \<and> e = length ls)"
proof -
  have ne: "ctx \<noteq> []" using assms(3) by simp
  have sh: "short_by_last ls ctx i" using assms(3) by (simp add: short_by_last_def)
  hence acc: "accepted ls ctx True i" by (simp add: accepted_def)
  have fc: "find_context ls ctx start True = find_loop ls ctx True start"
    using ne by (simp add: find_context_def)
  have "\<not> (\<exists>err. find_loop ls ctx True start = Inl err)"
    using find_loop_Inl[OF ne, of ls True start] acc assms(1,2) by blast
  then obtain s e where r: "find_loop ls ctx True start = Inr (s, e)"
    by (cases "find_loop ls ctx True start") auto
  from r find_loop_Inr[OF ne, of ls True start s e]
  have s1: "start \<le> s" and s2: "s < length ls"
    and s3: "\<forall>k. start \<le> k \<and> k < s \<longrightarrow> \<not> accepted ls ctx True k"
    and s4: "occurs_at ls ctx s \<and> e = s + length ctx \<or> short_by_last ls ctx s \<and> e = length ls"
    by simp_all
  have si: "s \<le> i"
  proof (rule ccontr)
    assume "\<not> s \<le> i"
    hence "start \<le> i \<and> i < s" using assms(1) by simp
    thus False using s3 acc by blast
  qed
  show ?thesis
  proof (cases "\<exists>k. start \<le> k \<and> k < i \<and> occurs_at ls ctx k")
    case True
    then obtain k where k: "start \<le> k" "k < i" "occurs_at ls ctx k" by blast
    hence "accepted ls ctx True k" by (simp add: accepted_def)
    hence "\<not> k < s" using s3 k(1) by blast
    hence lt: "s < i" using k(2) by simp
    hence "\<not> short_by_last ls ctx s" using short_unique[OF assms(2) sh] by blast
    hence "occurs_at ls ctx s \<and> e = s + length ctx" using s4 by blast
    moreover have "\<forall>k. start \<le> k \<and> k < s \<longrightarrow> \<not> occurs_at ls ctx k"
      using s3 by (simp add: accepted_def)
    ultimately show ?thesis using True r fc s1 si lt by auto
  next
    case False
    have "s = i"
    proof (rule ccontr)
      assume "s \<noteq> i"
      hence lt: "s < i" using si by simp
      hence "\<not> short_by_last ls ctx s" using short_unique[OF assms(2) sh] by blast
      hence "occurs_at ls ctx s" using s4 by blast
      thus False using False s1 lt by blast
    qed
    moreover have "\<not> occurs_at ls ctx i" using occurs_not_short[OF ne] sh by blast
    ultimately have "s = i \<and> e = length ls" using s4 by blast
    thus ?thesis using False r fc s1 si by auto
  qed
qed

theorem eof_tolerance_tail_witness:
  "\<exists>s e. find_context [''a'', ''c''] [''c'', ''d''] 0 True = Inr (s, e) \<and> 0 \<le> s \<and> s \<le> 1 \<and>
           (if \<exists>k. 0 \<le> k \<and> k < 1 \<and> occurs_at [''a'', ''c''] [''c'', ''d''] k
            then s < 1 \<and> occurs_at [''a'', ''c''] [''c'', ''d''] s \<and> e = s + length [''c'', ''d''] \<and>
                 (\<forall>k. 0 \<le> k \<and> k < s \<longrightarrow> \<not> occurs_at [''a'', ''c''] [''c'', ''d''] k)
            else s = 1 \<and> e = length [''a'', ''c''])"
  using eof_tolerance_tail[of 0 1 "[''a'', ''c'']" "[''c'', ''d'']" "''d''"] by simp

text \<open>
  The claim as stated fails where the context also occurs in full before the tail: the
  first occurrence is returned, not the tail window.
\<close>

theorem eof_tolerance_tail_counterexample:
  "[''a'', ''b''] = drop 2 [''a'', ''b'', ''a''] @ [''b''] \<and>
   find_context [''a'', ''b'', ''a''] [''a'', ''b''] 0 True = Inr (0, 2) \<and>
   find_context [''a'', ''b'', ''a''] [''a'', ''b''] 0 True \<noteq> Inr (2, length [''a'', ''b'', ''a''])"
  by code_simp

text \<open>\<^verbatim>\<open>_get_updated_file\<close> calls the locator with the tolerance disabled.\<close>

lemma update_path_no_tolerance:
  "get_updated_file ''a\<newline>c\<newline>'' \<lparr>pa_type = UPDATE, new_file = None,
      chunks = [\<lparr>orig_index = 0, del_lines = [''c'', ''d''], ins_lines = [''c'']\<rparr>],
      move_path = None\<rparr> ''f'' = Inl (FailedToApplyChunk ''f'')"
  by code_simp

subsection \<open>The Commit Builder\<close>

lemma find_first_index:
  "List.find P [a..<b] = Some i \<longleftrightarrow> a \<le> i \<and> i < b \<and> P i \<and> (\<forall>k. a \<le> k \<and> k < i \<longrightarrow> \<not> P k)"
proof -
  have "List.find P [a..<b] = Some i \<longleftrightarrow>
        (\<exists>n<length [a..<b]. P ([a..<b] ! n) \<and> i = [a..<b] ! n \<and> (\<forall>m<n. \<not> P ([a..<b] ! m)))"
    by (rule find_Some_iff)
  also have "\<dots> \<longleftrightarrow> (\<exists>n<b - a. P (a + n) \<and> i = a + n \<and> (\<forall>m<n. \<not> P (a + m)))"
    by auto
  also have "\<dots> \<longleftrightarrow> a \<le> i \<and> i < b \<and> P i \<and> (\<forall>k. a \<le> k \<and> k < i \<longrightarrow> \<not> P k)"
  proof
    assume "\<exists>n<b - a. P (a + n) \<and> i = a + n \<and> (\<forall>m<n. \<not> P (a + m))"
    then obtain n where n: "n < b - a" "P (a + n)" "i = a + n" "\<forall>m<n. \<not> P (a + m)" by blast
    have "\<not> P k" if "a \<le> k \<and> k < i" for k
    proof -
      from that n(3) have "k - a < n" by arith
      moreover from that have "k = a + (k - a)" by arith
      ultimately show ?thesis using n(4) by metis
    qed
    thus "a \<le> i \<and> i < b \<and> P i \<and> (\<forall>k. a \<le> k \<and> k < i \<longrightarrow> \<not> P k)" using n by auto
  next
    assume r: "a \<le> i \<and> i < b \<and> P i \<and> (\<forall>k. a \<le> k \<and> k < i \<longrightarrow> \<not> P k)"
    hence "i - a < b - a \<and> P (a + (i - a)) \<and> i = a + (i - a) \<and> (\<forall>m<i - a. \<not> P (a + m))"
      by auto
    thus "\<exists>n<b - a. P (a + n) \<and> i = a + n \<and> (\<forall>m<n. \<not> P (a + m))" by blast
  qed
  finally show ?thesis .
qed

lemma find_context_first_match:
  "find_context orig ctx 0 False =
     (case first_match orig ctx of
        None \<Rightarrow> Inl ContextNotFound
      | Some i \<Rightarrow> Inr (i, i + length ctx))"
proof (cases "ctx = []")
  case True
  thus ?thesis by (simp add: find_context_def first_match_def)
next
  case ne: False
  have acc: "accepted orig ctx False k = occurs_at orig ctx k" for k by (simp add: accepted_def)
  show ?thesis
  proof (cases "List.find (occurs_at orig ctx) [0..<length orig]")
    case None
    hence "\<forall>k. 0 \<le> k \<and> k < length orig \<longrightarrow> \<not> accepted orig ctx False k"
      by (auto simp: find_None_iff acc)
    hence "find_loop orig ctx False 0 = Inl ContextNotFound"
      using find_loop_Inl[OF ne, of orig False 0 ContextNotFound] by simp
    thus ?thesis using ne None by (simp add: find_context_def first_match_def)
  next
    case (Some i)
    hence "0 \<le> i \<and> i < length orig \<and> occurs_at orig ctx i \<and> (\<forall>k. 0 \<le> k \<and> k < i \<longrightarrow> \<not> occurs_at orig ctx k)"
      using find_first_index[of "occurs_at orig ctx" 0 "length orig" i] by blast
    hence "find_loop orig ctx False 0 = Inr (i, i + length ctx)"
      using find_loop_Inr[OF ne, of orig False 0 i "i + length ctx"] by (auto simp: acc)
    thus ?thesis using ne Some by (simp add: find_context_def first_match_def)
  qed
qed

lemma those_has_None: "None \<in> set xs \<Longrightarrow> those xs = None"
  by (induction xs) (auto split: option.splits)

lemma slice_assign_splice:
  "slice_assign buf s (s + n) ys = take s buf @ ys @ drop (s + n) buf"
proof (cases "s \<le> length buf")
  case True
  thus ?thesis by (cases "s + n \<le> length buf") (simp_all add: slice_assign_def Let_def min_def max_def)
next
  case False
  thus ?thesis by (simp add: slice_assign_def Let_def min_def max_def)
qed

lemma apply_chunks_located:
  "apply_chunks orig path cs buf =
     (case those (map (\<lambda>c. first_match orig (del_lines c)) cs) of
        None \<Rightarrow> Inl (FailedToApplyChunk path)
      | Some starts \<Rightarrow> Inr (foldl splice_at buf (zip starts cs)))"
proof (induction cs arbitrary: buf)
  case Nil
  show ?case by simp
next
  case (Cons c cs)
  show ?case
  proof (cases "first_match orig (del_lines c)")
    case None
    thus ?thesis by (simp add: find_context_first_match)
  next
    case (Some s)
    show ?thesis
      using Some Cons.IH[of "splice_at buf (s, c)"]
      by (simp add: find_context_first_match slice_assign_splice splice_at_def
               split: option.splits)
  qed
qed

lemma commit_loop_aborts:
  assumes "(path, action) \<in> set items" and "pa_type action = UPDATE"
    and "orig path = Some old" and "get_updated_file old action path = Inl e"
  shows "\<exists>e'. commit_loop items orig commit = Inl e'"
  using assms(1)
proof (induction items arbitrary: commit)
  case Nil
  thus ?case by simp
next
  case (Cons it items)
  obtain p a where it: "it = (p, a)" by (cases it)
  show ?case
  proof (cases "it = (path, action)")
    case True
    thus ?thesis using assms(2-4) by simp
  next
    case False
    hence "(path, action) \<in> set items" using Cons.prems by simp
    hence ih: "\<exists>e'. commit_loop items orig c = Inl e'" for c using Cons.IH by blast
    show ?thesis unfolding it
      by (cases "pa_type a") (auto simp: ih split: option.splits sum.splits)
  qed
qed

text \<open>
  Claim C3. For an Update action, every chunk is located by the first occurrence of its
  \<open>del_lines\<close> in the original lines of the file, searched from index 0; the located
  spans are then replaced one after the other in one working copy. The locations do not
  depend on the working copy. If any chunk of the action cannot be located, the Update
  fails with an error, and \<open>patch_to_commit\<close> returns an error instead of a commit: no
  content is produced for the file.
\<close>

theorem chunks_located_in_original:
  "(pa_type action = UPDATE \<longrightarrow>
      get_updated_file orig_text action path =
        (case those (map (\<lambda>c. first_match (splitlines orig_text) (del_lines c)) (chunks action)) of
           None \<Rightarrow> Inl (FailedToApplyChunk path)
         | Some starts \<Rightarrow>
             Inr (rebuilt orig_text (foldl splice_at (splitlines orig_text) (zip starts (chunks action)))))) \<and>
   ((path, action) \<in> set items \<and> pa_type action = UPDATE \<and> orig path = Some orig_text \<and>
    c \<in> set (chunks action) \<and> first_match (splitlines orig_text) (del_lines c) = None \<longrightarrow>
      get_updated_file orig_text action path = Inl (FailedToApplyChunk path) \<and>
      (\<exists>e. patch_to_commit items orig = Inl e))"
proof -
  have A: "get_updated_file orig_text action path =
        (case those (map (\<lambda>c. first_match (splitlines orig_text) (del_lines c)) (chunks action)) of
           None \<Rightarrow> Inl (FailedToApplyChunk path)
         | Some starts \<Rightarrow>
             Inr (rebuilt orig_text (foldl splice_at (splitlines orig_text) (zip starts (chunks action)))))"
    if "pa_type action = UPDATE"
    using that by (simp add: get_updated_file_def apply_chunks_located rebuilt_def Let_def
                        split: option.splits)
  have B: "get_updated_file orig_text action path = Inl (FailedToApplyChunk path) \<and>
      (\<exists>e. patch_to_commit items orig = Inl e)"
    if h: "(path, action) \<in> set items" "pa_type action = UPDATE" "orig path = Some orig_text"
       "c \<in> set (chunks action)" "first_match (splitlines orig_text) (del_lines c) = None"
  proof -
    have "None \<in> set (map (\<lambda>c. first_match (splitlines orig_text) (del_lines c)) (chunks action))"
      using h(4,5) by force
    hence "those (map (\<lambda>c. first_match (splitlines orig_text) (del_lines c)) (chunks action)) = None"
      by (rule those_has_None)
    hence f: "get_updated_file orig_text action path = Inl (FailedToApplyChunk path)"
      using A[OF h(2)] by simp
    have "\<exists>e'. commit_loop items orig [] = Inl e'"
      using h(1,2,3) f by (rule commit_loop_aborts[where old = orig_text])
    thus ?thesis using f by (simp add: patch_to_commit_def)
  qed
  show ?thesis using A B by blast
qed

lemma splitlines_abc [simp]: "splitlines ''a\<newline>b\<newline>c\<newline>'' = [''a'', ''b'', ''c'']"
  by (simp add: splitlines_def is_linebreak_def)

theorem chunks_located_in_original_witness:
  "get_updated_file ''a\<newline>b\<newline>c\<newline>''
     \<lparr>pa_type = UPDATE, new_file = None,
      chunks = [\<lparr>orig_index = 0, del_lines = [''a''], ins_lines = [''x'', ''y'']\<rparr>,
                \<lparr>orig_index = 0, del_lines = [''c''], ins_lines = [''z'']\<rparr>],
      move_path = None\<rparr> ''f'' = Inr ''x\<newline>y\<newline>z\<newline>c\<newline>'' \<and>
   (\<exists>e. patch_to_commit
      [(''f'', \<lparr>pa_type = UPDATE, new_file = None,
         chunks = [\<lparr>orig_index = 0, del_lines = [''a''], ins_lines = [''x'']\<rparr>,
                   \<lparr>orig_index = 0, del_lines = [''q''], ins_lines = [''z'']\<rparr>],
         move_path = None\<rparr>)]
      [''f'' \<mapsto> ''a\<newline>b\<newline>c\<newline>''] = Inl e)"
proof -
  have 1: "get_updated_file ''a\<newline>b\<newline>c\<newline>''
     \<lparr>pa_type = UPDATE, new_file = None,
      chunks = [\<lparr>orig_index = 0, del_lines = [''a''], ins_lines = [''x'', ''y'']\<rparr>,
                \<lparr>orig_index = 0, del_lines = [''c''], ins_lines = [''z'']\<rparr>],
      move_path = None\<rparr> ''f'' = Inr ''x\<newline>y\<newline>z\<newline>c\<newline>''"
    using chunks_located_in_original[where orig_text = "''a\<newline>b\<newline>c\<newline>''" and path = "''f''"
        and action = "\<lparr>pa_type = UPDATE, new_file = None,
      chunks = [\<lparr>orig_index = 0, del_lines = [''a''], ins_lines = [''x'', ''y'']\<rparr>,
                \<lparr>orig_index = 0, del_lines = [''c''], ins_lines = [''z'']\<rparr>],
      move_path = None\<rparr>"]
    by (simp add: first_match_def occurs_at_def splice_at_def rebuilt_def upt_rec suffix_to_prefix)
  have 2: "\<exists>e. patch_to_commit
      [(''f'', \<lparr>pa_type = UPDATE, new_file = None,
         chunks = [\<lparr>orig_index = 0, del_lines = [''a''], ins_lines = [''x'']\<rparr>,
                   \<lparr>orig_index = 0, del_lines = [''q''], ins_lines = [''z'']\<rparr>],
         move_path = None\<rparr>)]
      [''f'' \<mapsto> ''a\<newline>b\<newline>c\<newline>''] = Inl e"
    using chunks_located_in_original[where orig_text = "''a\<newline>b\<newline>c\<newline>''" and path = "''f''"
        and action = "\<lparr>pa_type = UPDATE, new_file = None,
         chunks = [\<lparr>orig_index = 0, del_lines = [''a''], ins_lines = [''x'']\<rparr>,
                   \<lparr>orig_index = 0, del_lines = [''q''], ins_lines = [''z'']\<rparr>],
         move_path = None\<rparr>"
        and items = "[(''f'', \<lparr>pa_type = UPDATE, new_file = None,
         chunks = [\<lparr>orig_index = 0, del_lines = [''a''], ins_lines = [''x'']\<rparr>,
                   \<lparr>orig_index = 0, del_lines = [''q''], ins_lines = [''z'']\<rparr>],
         move_path = None\<rparr>)]"
        and orig = "[''f'' \<mapsto> ''a\<newline>b\<newline>c\<newline>'']"
        and c = "\<lparr>orig_index = 0, del_lines = [''q''], ins_lines = [''z'']\<rparr>"]
    by (simp add: first_match_def occurs_at_def upt_rec)
  show ?thesis using 1 2 by blast
qed

subsection \<open>Round trip of an Update\<close>


















text \<open>
  Where the code misses the replacement: two chunks listed from the top of the file to
  the bottom, the first of which adds a line. The span of the second chunk is found in
  the original lines and replaced at the same index of the working copy, which the
  first chunk has shifted: line \<open>b\<close>, which no chunk touches, is lost, and line \<open>c\<close>,
  which the second chunk deletes, is kept. The replacement of each slice would give the
  lines \<open>x\<close>, \<open>y\<close>, \<open>b\<close>, \<open>z\<close>.
\<close>

lemma shifted_span_slip:
  "get_updated_file ''a\<newline>b\<newline>c\<newline>''
     \<lparr>pa_type = UPDATE, new_file = None,
      chunks = [\<lparr>orig_index = 0, del_lines = [''a''], ins_lines = [''x'', ''y'']\<rparr>,
                \<lparr>orig_index = 0, del_lines = [''c''], ins_lines = [''z'']\<rparr>],
      move_path = None\<rparr> ''f'' = Inr ''x\<newline>y\<newline>z\<newline>c\<newline>'' \<and>
   rebuilt ''a\<newline>b\<newline>c\<newline>''
     (replace_from 0 [''a'', ''b'', ''c'']
        [(0, \<lparr>orig_index = 0, del_lines = [''a''], ins_lines = [''x'', ''y'']\<rparr>),
         (2, \<lparr>orig_index = 0, del_lines = [''c''], ins_lines = [''z'']\<rparr>)]) =
     ''x\<newline>y\<newline>b\<newline>z\<newline>'' \<and>
   \<not> unshifted []
       [(0, \<lparr>orig_index = 0, del_lines = [''a''], ins_lines = [''x'', ''y'']\<rparr>),
        (2, \<lparr>orig_index = 0, del_lines = [''c''], ins_lines = [''z'']\<rparr>)]"
  by code_simp

subsection \<open>The Grammar Parser: Add File bodies\<close>

lemma drop_index_Cons:
  "index p < length (lines p) \<Longrightarrow>
   drop (index p) (lines p) = lines p ! index p # drop (index p + 1) (lines p)"
  by (simp add: Cons_nth_drop_Suc)

lemma add_loop_body:
  "add_loop p acc =
     Inr (acc @ filter (\<lambda>l. l \<noteq> []) (add_body p), p\<lparr>index := index p + length (add_body p)\<rparr>)"
proof (induction p acc rule: add_loop.induct)
  case (1 p acc)
  show ?case
  proof (cases "is_done p [''*** '']")
    case True
    hence "add_body p = []"
      by (cases "index p < length (lines p)")
         (auto simp: is_done_def add_body_def drop_index_Cons split: if_splits)
    thus ?thesis using True by (subst add_loop.simps) simp
  next
    case False
    hence lt: "index p < length (lines p)" and np: "\<not> prefix ''*** '' (lines p ! index p)"
      by (auto simp: is_done_def split: if_splits)
    let ?l = "lines p ! index p"
    let ?p' = "p\<lparr>index := index p + 1\<rparr>"
    have rs: "read_str p [] False = Inr (?l, ?p')" using lt by (simp add: read_str_def)
    have body: "add_body p = ?l # add_body ?p'"
      using lt np by (simp add: add_body_def drop_index_Cons)
    have ih: "add_loop ?p' (if ?l \<noteq> [] then acc @ [?l] else acc) =
      Inr ((if ?l \<noteq> [] then acc @ [?l] else acc) @ filter (\<lambda>l. l \<noteq> []) (add_body ?p'),
           ?p'\<lparr>index := index ?p' + length (add_body ?p')\<rparr>)"
      using "1.IH"[OF False rs[symmetric, THEN sym]] by simp
    show ?thesis
      apply (subst add_loop.simps)
      using False rs ih body by simp
  qed
qed

lemma join_last:
  "xs \<noteq> [] \<Longrightarrow> \<forall>x \<in> set xs. x \<noteq> [] \<Longrightarrow>
   join sep xs \<noteq> [] \<and> last (join sep xs) = last (last xs)"
  by (induction sep xs rule: join.induct) auto

lemma join_no_trailing_newline:
  assumes "\<forall>x \<in> set xs. x \<noteq> [] \<and> CHR 0x0A \<notin> set x"
  shows "\<not> suffix ''\<newline>'' (join ''\<newline>'' xs)"
proof (cases "xs = []")
  case True
  thus ?thesis by (simp add: suffix_def)
next
  case False
  hence j: "join ''\<newline>'' xs \<noteq> [] \<and> last (join ''\<newline>'' xs) = last (last xs)"
    using assms by (intro join_last) auto
  have "last xs \<in> set xs" using False by simp
  hence "last (last xs) \<in> set (last xs)" "CHR 0x0A \<notin> set (last xs)" using assms by auto
  hence ne: "last (join ''\<newline>'' xs) \<noteq> CHR 0x0A" using j by auto
  show ?thesis
  proof
    assume "suffix ''\<newline>'' (join ''\<newline>'' xs)"
    then obtain zs where "join ''\<newline>'' xs = zs @ ''\<newline>''" unfolding suffix_def by blast
    hence "last (join ''\<newline>'' xs) = last (zs @ ''\<newline>'')" by (rule arg_cong)
    also have "\<dots> = CHR 0x0A" by simp
    finally show False using ne by blast
  qed
qed

lemma split_acc_no_newline:
  "CHR 0x0A \<notin> set acc \<Longrightarrow> \<forall>l \<in> set (split_acc acc s). CHR 0x0A \<notin> set l"
proof (induction acc s rule: split_acc.induct)
  case (1 acc)
  thus ?case by simp
next
  case (2 acc c cs)
  show ?case
  proof (cases "c = CHR 0x0D")
    case True
    show ?thesis
    proof (cases cs)
      case Nil
      thus ?thesis using True "2.prems" by simp
    next
      case (Cons d ds)
      show ?thesis
      proof (cases "d = CHR 0x0A")
        case T: True
        have "\<forall>l \<in> set (split_acc [] ds). CHR 0x0A \<notin> set l"
          using "2.IH"(2)[OF True Cons T] by simp
        thus ?thesis using True Cons T "2.prems" by simp
      next
        case F: False
        have "\<forall>l \<in> set (split_acc [] cs). CHR 0x0A \<notin> set l"
          using "2.IH"(3)[OF True Cons F] by simp
        thus ?thesis using True Cons F "2.prems" by simp
      qed
    qed
  next
    case False
    show ?thesis
    proof (cases "is_linebreak c")
      case True
      have "\<forall>l \<in> set (split_acc [] cs). CHR 0x0A \<notin> set l"
        using "2.IH"(4)[OF False True] by simp
      thus ?thesis using False True "2.prems" by simp
    next
      case F: False
      hence "c \<noteq> CHR 0x0A" by (auto simp: is_linebreak_def)
      hence "\<forall>l \<in> set (split_acc (c # acc) cs). CHR 0x0A \<notin> set l"
        using "2.IH"(5)[OF False F] "2.prems" by simp
      thus ?thesis using False F by simp
    qed
  qed
qed

lemma splitlines_no_newline: "\<forall>l \<in> set (splitlines s). CHR 0x0A \<notin> set l"
  unfolding splitlines_def by (rule split_acc_no_newline) simp

text \<open>
  Claim C10. The text stored for an Add File directive is the non-empty lines of its
  body joined by single newlines; empty body lines are dropped. When no line holds a
  newline character, as for the lines that \<open>splitlines\<close> yields, the text does not end
  with a newline.
\<close>

theorem add_file_body:
  "parse_add_file p =
     Inr (\<lparr>pa_type = ADD,
           new_file = Some (join ''\<newline>'' (filter (\<lambda>l. l \<noteq> []) (add_body p))),
           chunks = [], move_path = None\<rparr>,
          p\<lparr>index := index p + length (add_body p)\<rparr>) \<and>
   ((\<forall>l \<in> set (lines p). CHR 0x0A \<notin> set l) \<longrightarrow>
      \<not> suffix ''\<newline>'' (join ''\<newline>'' (filter (\<lambda>l. l \<noteq> []) (add_body p))))"
proof -
  have sub: "set (add_body p) \<subseteq> set (lines p)"
  proof
    fix l assume "l \<in> set (add_body p)"
    hence "l \<in> set (drop (index p) (lines p))"
      unfolding add_body_def by (rule set_takeWhileD[THEN conjunct1])
    thus "l \<in> set (lines p)" by (rule in_set_dropD)
  qed
  have A: "parse_add_file p =
     Inr (\<lparr>pa_type = ADD,
           new_file = Some (join ''\<newline>'' (filter (\<lambda>l. l \<noteq> []) (add_body p))),
           chunks = [], move_path = None\<rparr>,
          p\<lparr>index := index p + length (add_body p)\<rparr>)"
    by (simp add: parse_add_file_def add_loop_body)
  have B: "\<not> suffix ''\<newline>'' (join ''\<newline>'' (filter (\<lambda>l. l \<noteq> []) (add_body p)))"
    if h: "\<forall>l \<in> set (lines p). CHR 0x0A \<notin> set l"
  proof (rule join_no_trailing_newline)
    show "\<forall>x \<in> set (filter (\<lambda>l. l \<noteq> []) (add_body p)). x \<noteq> [] \<and> CHR 0x0A \<notin> set x"
      using h sub by auto
  qed
  show ?thesis using A B by blast
qed

theorem add_file_body_witness:
  "parse_add_file
     \<lparr>current_files = Map.empty,
      lines = [''*** Add File: n'', ''hello'', [], ''world'', ''*** End Patch''],
      index = 1, patch = [], fuzz = 0\<rparr> =
   Inr (\<lparr>pa_type = ADD, new_file = Some ''hello\<newline>world'', chunks = [], move_path = None\<rparr>,
        \<lparr>current_files = Map.empty,
         lines = [''*** Add File: n'', ''hello'', [], ''world'', ''*** End Patch''],
         index = 4, patch = [], fuzz = 0\<rparr>) \<and>
   \<not> suffix ''\<newline>'' ''hello\<newline>world''"
  using add_file_body[of "\<lparr>current_files = Map.empty,
      lines = [''*** Add File: n'', ''hello'', [], ''world'', ''*** End Patch''],
      index = 1, patch = [], fuzz = 0\<rparr>"]
  by (simp add: add_body_def)

subsection \<open>The Grammar Parser: hunk bodies\<close>

lemma hunk_del_Cons:
  "hunk_del (l # body) =
     (if prefix ''-'' l then drop 1 l # hunk_del body
      else if prefix ''+'' l then hunk_del body else l # hunk_del body)"
  by (cases l) (auto simp: hunk_del_def)

lemma hunk_ins_Cons:
  "hunk_ins (l # body) =
     (if prefix ''-'' l then hunk_ins body
      else if prefix ''+'' l then drop 1 l # hunk_ins body else l # hunk_ins body)"
  by (cases l) (auto simp: hunk_ins_def)

lemma add_hunk_line_spec:
  "\<not> prefix ''@@ '' l \<Longrightarrow>
   add_hunk_line l c =
     c\<lparr>del_lines := del_lines c @ hunk_del [l], ins_lines := ins_lines c @ hunk_ins [l]\<rparr>"
  by (cases l) (auto simp: add_hunk_line_def hunk_del_def hunk_ins_def)

lemma chunk_loop_body:
  "chunk_loop p c =
     Inr (c\<lparr>del_lines := del_lines c @ hunk_del (hunk_body p),
             ins_lines := ins_lines c @ hunk_ins (hunk_body p)\<rparr>,
          p\<lparr>index := index p + length (hunk_body p) + (if blank_follows p then 1 else 0)\<rparr>)"
proof (induction p c rule: chunk_loop.induct)
  case (1 p c)
  show ?case
  proof (cases "is_done p [''@@ '', ''*** '']")
    case True
    hence b: "hunk_body p = []"
      by (cases "index p < length (lines p)")
         (auto simp: is_done_def hunk_body_def drop_index_Cons split: if_splits)
    have nb: "\<not> blank_follows p"
    proof (cases "index p < length (lines p)")
      case lt: True
      hence "lines p ! index p \<noteq> []" using True by (auto simp: is_done_def split: if_splits)
      thus ?thesis using lt by (simp add: blank_follows_def b drop_index_Cons)
    next
      case False
      thus ?thesis by (simp add: blank_follows_def b)
    qed
    show ?thesis using True b nb
      by (subst chunk_loop.simps) (simp add: hunk_del_def hunk_ins_def)
  next
    case False
    hence lt: "index p < length (lines p)"
      and n1: "\<not> prefix ''@@ '' (lines p ! index p)"
      and n2: "\<not> prefix ''*** '' (lines p ! index p)"
      by (auto simp: is_done_def split: if_splits)
    let ?l = "lines p ! index p"
    let ?p' = "p\<lparr>index := index p + 1\<rparr>"
    have rs: "read_str p [] True = Inr (?l, ?p')" using lt by (simp add: read_str_def)
    show ?thesis
    proof (cases "?l = []")
      case True
      hence b: "hunk_body p = []" using lt by (simp add: hunk_body_def drop_index_Cons)
      have bf: "blank_follows p" using lt True by (simp add: blank_follows_def b drop_index_Cons)
      have "chunk_loop p c = Inr (c, ?p')"
        using False rs True by (subst chunk_loop.simps) simp
      thus ?thesis using b bf by (simp add: hunk_del_def hunk_ins_def)
    next
      case ne: False
      have b: "hunk_body p = ?l # hunk_body ?p'"
        using lt ne n1 n2 by (simp add: hunk_body_def drop_index_Cons)
      have bf: "blank_follows p = blank_follows ?p'"
        by (simp add: blank_follows_def b)
      have ih: "chunk_loop ?p' (add_hunk_line ?l c) =
        Inr ((add_hunk_line ?l c)\<lparr>del_lines := del_lines (add_hunk_line ?l c) @ hunk_del (hunk_body ?p'),
             ins_lines := ins_lines (add_hunk_line ?l c) @ hunk_ins (hunk_body ?p')\<rparr>,
          ?p'\<lparr>index := index ?p' + length (hunk_body ?p') + (if blank_follows ?p' then 1 else 0)\<rparr>)"
        using "1.IH"[OF False rs refl ne] by simp
      have st: "chunk_loop p c = chunk_loop ?p' (add_hunk_line ?l c)"
        using False rs ne by (subst chunk_loop.simps) simp
      show ?thesis unfolding st ih b bf
        by (simp add: add_hunk_line_spec[OF n1] hunk_del_Cons hunk_ins_Cons hunk_del_def hunk_ins_def)
    qed
  qed
qed

text \<open>
  Claim C2, amended. A hunk ends at the next line that starts with \<open>@@ \<close> or \<open>*** \<close>, as
  the specification says, and also at the next empty line. Of the lines of its body, one
  that starts with \<open>-\<close> is appended without the marker to \<open>del_lines\<close> only, one that
  starts with \<open>+\<close> is appended without the marker to \<open>ins_lines\<close> only, and every other
  one is appended unchanged to both. An empty line is appended to neither list: it ends
  the hunk body and is skipped.
\<close>

theorem hunk_lines_classified:
  "chunk_loop p c =
     Inr (c\<lparr>del_lines := del_lines c @ hunk_del (hunk_body p),
             ins_lines := ins_lines c @ hunk_ins (hunk_body p)\<rparr>,
          p\<lparr>index := index p + length (hunk_body p) + (if blank_follows p then 1 else 0)\<rparr>) \<and>
   hunk_del (l # body) =
     (if prefix ''-'' l then drop 1 l # hunk_del body
      else if prefix ''+'' l then hunk_del body else l # hunk_del body) \<and>
   hunk_ins (l # body) =
     (if prefix ''-'' l then hunk_ins body
      else if prefix ''+'' l then drop 1 l # hunk_ins body else l # hunk_ins body) \<and>
   hunk_del [] = [] \<and> hunk_ins [] = [] \<and>
   [] \<notin> set (hunk_body p)"
proof -
  have "[] \<notin> set (hunk_body p)"
    unfolding hunk_body_def using set_takeWhileD by fastforce
  thus ?thesis
    using chunk_loop_body[of p c] hunk_del_Cons[of l body] hunk_ins_Cons[of l body]
    by (simp add: hunk_del_def hunk_ins_def)
qed

theorem hunk_lines_classified_witness:
  "chunk_loop
     \<lparr>current_files = Map.empty,
      lines = [''@@ x'', '' a'', ''-b'', ''+c'', ''d'', ''*** End Patch''],
      index = 1, patch = [], fuzz = 0\<rparr>
     \<lparr>orig_index = 0, del_lines = [], ins_lines = []\<rparr> =
   Inr (\<lparr>orig_index = 0, del_lines = ['' a'', ''b'', ''d''], ins_lines = ['' a'', ''c'', ''d'']\<rparr>,
        \<lparr>current_files = Map.empty,
         lines = [''@@ x'', '' a'', ''-b'', ''+c'', ''d'', ''*** End Patch''],
         index = 5, patch = [], fuzz = 0\<rparr>)"
  using hunk_lines_classified[of
     "\<lparr>current_files = Map.empty,
      lines = [''@@ x'', '' a'', ''-b'', ''+c'', ''d'', ''*** End Patch''],
      index = 1, patch = [], fuzz = 0\<rparr>"
     "\<lparr>orig_index = 0, del_lines = [], ins_lines = []\<rparr>" "[]" "[]"]
  by (simp add: hunk_body_def hunk_del_def hunk_ins_def blank_follows_def)

text \<open>
  The claim as stated fails on an empty line: the hunk with the lines \<open>a\<close>, empty,
  \<open>b\<close> ends at the empty line, which is stored in neither list.
\<close>

theorem hunk_lines_classified_counterexample:
  "chunk_loop
     \<lparr>current_files = Map.empty, lines = [''a'', [], ''b''], index = 0, patch = [], fuzz = 0\<rparr>
     \<lparr>orig_index = 0, del_lines = [], ins_lines = []\<rparr> =
   Inr (\<lparr>orig_index = 0, del_lines = [''a''], ins_lines = [''a'']\<rparr>,
        \<lparr>current_files = Map.empty, lines = [''a'', [], ''b''], index = 2, patch = [],
         fuzz = 0\<rparr>)"
  using chunk_loop_body[of
     "\<lparr>current_files = Map.empty, lines = [''a'', [], ''b''], index = 0, patch = [], fuzz = 0\<rparr>"
     "\<lparr>orig_index = 0, del_lines = [], ins_lines = []\<rparr>"]
  by (simp add: hunk_body_def hunk_del_def hunk_ins_def blank_follows_def)

subsection \<open>The Grammar Parser: termination\<close>

text \<open>A state in which the outer loop of \<open>parse_update_file\<close> makes no progress.\<close>

lemma update_loop_stuck:
  assumes "\<not> is_done p [''*** '']" and "\<not> startswith p ''@@ ''"
  shows "update_loop p action = None"
proof (rule ccontr)
  assume "update_loop p action \<noteq> None"
  then obtain r where r: "update_loop p action = Some r" by blast
  have "\<not> (\<not> is_done q [''*** ''] \<and> \<not> startswith q ''@@ '')"
    if h: "update_loop q a = Some y" for q a y
  proof (rule update_loop.raw_induct
      [where P = "\<lambda>q a y. \<not> (\<not> is_done q [''*** ''] \<and> \<not> startswith q ''@@ '')", OF _ h])
    fix f q a y
    assume ih: "\<And>q a y. f q a = Some y \<Longrightarrow>
                  \<not> (\<not> is_done q [''*** ''] \<and> \<not> startswith q ''@@ '')"
      and eq: "(if is_done q [''*** ''] then Some (Inr (a, q))
                else if startswith q ''@@ '' then
                  (case chunk_loop (q\<lparr>index := index q + 1\<rparr>)
                          \<lparr>orig_index = 0, del_lines = [], ins_lines = []\<rparr> of
                     Inl e \<Rightarrow> Some (Inl e)
                   | Inr (chunk, p') \<Rightarrow> f p' (a\<lparr>chunks := chunks a @ [chunk]\<rparr>))
                else f q a) = Some y"
    show "\<not> (\<not> is_done q [''*** ''] \<and> \<not> startswith q ''@@ '')"
    proof
      assume st: "\<not> is_done q [''*** ''] \<and> \<not> startswith q ''@@ ''"
      hence "f q a = Some y" using eq by simp
      thus False using ih st by blast
    qed
  qed
  thus False using r assms by blast
qed

text \<open>
  Claim C9 fails on the code. The body of this Update directive starts with the line
  \<open>x\<close>, which is neither a hunk header nor a directive: the outer loop of
  \<open>parse_update_file\<close> tests the same line again for ever, and parsing returns neither a
  patch nor an error.
\<close>

theorem parse_never_returns:
  "text_to_patch ''*** Begin Patch\<newline>*** Update File: a.py\<newline>x\<newline>*** End Patch''
     [''a.py'' \<mapsto> ''x\<newline>''] = None"
proof -
  let ?ls = "[''*** Begin Patch'', ''*** Update File: a.py'', ''x'', ''*** End Patch'']"
  let ?f = "[''a.py'' \<mapsto> ''x\<newline>'']"
  have sl: "splitlines ''*** Begin Patch\<newline>*** Update File: a.py\<newline>x\<newline>*** End Patch'' = ?ls"
    by (simp add: splitlines_def is_linebreak_def)
  let ?p2 = "\<lparr>current_files = ?f, lines = ?ls, index = Suc (Suc 0), patch = [], fuzz = 0\<rparr>"
  have stuck: "update_loop ?p2 a = None" for a
    by (rule update_loop_stuck) (simp_all add: is_done_def startswith_def)
  have step: "parse_step \<lparr>current_files = ?f, lines = ?ls, index = Suc 0, patch = [], fuzz = 0\<rparr> = None"
    by (simp add: parse_step_def read_str_def parse_update_file_def stuck)
  have "parse_loop \<lparr>current_files = ?f, lines = ?ls, index = Suc 0, patch = [], fuzz = 0\<rparr> = None"
    by (subst parse_loop.simps) (simp add: step is_done_def)
  thus ?thesis
    by (simp add: text_to_patch_def sl parse_def new_parser_def startswith_def)
qed

subsection \<open>The Grammar Parser: duplicate paths\<close>

lemma read_str_keeps:
  "read_str p pre b = Inr (s, p') \<Longrightarrow>
   patch p' = patch p \<and> lines p' = lines p \<and> current_files p' = current_files p"
  by (auto simp: read_str_def split: if_splits)

lemma read_str_patch: "read_str p pre b = Inr (s, p') \<Longrightarrow> patch p' = patch p"
  by (auto simp: read_str_def split: if_splits)

lemma update_loop_keeps_patch:
  assumes h: "update_loop p a = Some y"
  shows "\<forall>a' p'. y = Inr (a', p') \<longrightarrow> patch p' = patch p"
proof (rule update_loop.raw_induct
    [where P = "\<lambda>p a y. \<forall>a' p'. y = Inr (a', p') \<longrightarrow> patch p' = patch p", OF _ h])
  fix f p a y
  assume ih: "\<And>p a y. f p a = Some y \<Longrightarrow> \<forall>a' p'. y = Inr (a', p') \<longrightarrow> patch p' = patch p"
    and eq: "(if is_done p [''*** ''] then Some (Inr (a, p))
              else if startswith p ''@@ '' then
                (case chunk_loop (p\<lparr>index := index p + 1\<rparr>)
                        \<lparr>orig_index = 0, del_lines = [], ins_lines = []\<rparr> of
                   Inl e \<Rightarrow> Some (Inl e)
                 | Inr (chunk, p') \<Rightarrow> f p' (a\<lparr>chunks := chunks a @ [chunk]\<rparr>))
              else f p a) = Some y"
  show "\<forall>a' p'. y = Inr (a', p') \<longrightarrow> patch p' = patch p"
  proof (cases "is_done p [''*** '']")
    case True
    thus ?thesis using eq by auto
  next
    case nd: False
    show ?thesis
    proof (cases "startswith p ''@@ ''")
      case True
      let ?q = "p\<lparr>index := index p + 1\<rparr>"
      let ?c0 = "\<lparr>orig_index = 0, del_lines = [], ins_lines = []\<rparr>"
      obtain chunk q' where cl: "chunk_loop ?q ?c0 = Inr (chunk, q')" and pq: "patch q' = patch p"
        using chunk_loop_body[of ?q ?c0] by simp
      have "f q' (a\<lparr>chunks := chunks a @ [chunk]\<rparr>) = Some y"
        using eq nd True cl by simp
      thus ?thesis using ih pq by metis
    next
      case False
      hence "f p a = Some y" using eq nd by simp
      thus ?thesis using ih by blast
    qed
  qed
qed

lemma marker_prefix [simp]:
  "prefix ''*** Update File: '' (marker k @ path) = (k = UPDATE)"
  "prefix ''*** Add File: '' (marker k @ path) = (k = ADD)"
  "prefix ''*** Delete File: '' (marker k @ path) = (k = DELETE)"
  "\<not> prefix ''*** End Patch'' (marker k @ path)"
  by (cases k; simp add: marker_def)+

lemma marker_drop:
  "drop (length ''*** Update File: '') (marker UPDATE @ path) = path"
  "drop (length ''*** Add File: '') (marker ADD @ path) = path"
  "drop (length ''*** Delete File: '') (marker DELETE @ path) = path"
  by (simp_all add: marker_def)

lemma read_str_match:
  "index p < length (lines p) \<Longrightarrow> prefix pre (lines p ! index p) \<Longrightarrow>
   read_str p pre False = Inr (drop (length pre) (lines p ! index p), p\<lparr>index := index p + 1\<rparr>)"
  by (simp add: read_str_def)

lemma read_str_nomatch:
  "index p < length (lines p) \<Longrightarrow> \<not> prefix pre (lines p ! index p) \<Longrightarrow>
   read_str p pre False = Inr ([], p)"
  by (simp add: read_str_def)

text \<open>What the three \<open>read_str\<close> calls of one pass return on a directive line.\<close>

lemma read_directive:
  assumes "directive_at p k path"
  shows "k = UPDATE \<Longrightarrow>
           read_str p ''*** Update File: '' False = Inr (path, p\<lparr>index := index p + 1\<rparr>)"
    and "k \<noteq> UPDATE \<Longrightarrow> read_str p ''*** Update File: '' False = Inr ([], p)"
    and "k = ADD \<Longrightarrow>
           read_str p ''*** Add File: '' False = Inr (path, p\<lparr>index := index p + 1\<rparr>)"
    and "k = DELETE \<Longrightarrow> read_str p ''*** Add File: '' False = Inr ([], p)"
    and "k = DELETE \<Longrightarrow>
           read_str p ''*** Delete File: '' False = Inr (path, p\<lparr>index := index p + 1\<rparr>)"
proof -
  have lt: "index p < length (lines p)" and ln: "lines p ! index p = marker k @ path"
    using assms by (simp_all add: directive_at_def)
  show "k = UPDATE \<Longrightarrow>
           read_str p ''*** Update File: '' False = Inr (path, p\<lparr>index := index p + 1\<rparr>)"
    using read_str_match[OF lt, of "''*** Update File: ''"] ln marker_drop(1)[of path] by simp
  show "k \<noteq> UPDATE \<Longrightarrow> read_str p ''*** Update File: '' False = Inr ([], p)"
    using read_str_nomatch[OF lt, of "''*** Update File: ''"] ln by simp
  show "k = ADD \<Longrightarrow>
           read_str p ''*** Add File: '' False = Inr (path, p\<lparr>index := index p + 1\<rparr>)"
    using read_str_match[OF lt, of "''*** Add File: ''"] ln marker_drop(2)[of path] by simp
  show "k = DELETE \<Longrightarrow> read_str p ''*** Add File: '' False = Inr ([], p)"
    using read_str_nomatch[OF lt, of "''*** Add File: ''"] ln by simp
  show "k = DELETE \<Longrightarrow>
           read_str p ''*** Delete File: '' False = Inr (path, p\<lparr>index := index p + 1\<rparr>)"
    using read_str_match[OF lt, of "''*** Delete File: ''"] ln marker_drop(3)[of path] by simp
qed

lemma directive_not_done: "directive_at p k path \<Longrightarrow> \<not> is_done p [''*** End Patch'']"
  by (auto simp: directive_at_def is_done_def)

lemma duplicate_detected:
  assumes d: "directive_at p k path" and m: "path \<in> fst ` set (patch p)"
  shows "parse_step p = Some (Inl (DuplicatePath k path))"
proof -
  have ne: "path \<noteq> []" using d by (simp add: directive_at_def)
  show ?thesis
  proof (cases k)
    case UPDATE
    thus ?thesis using read_directive(1)[OF d] ne m by (simp add: parse_step_def)
  next
    case ADD
    thus ?thesis using read_directive(2,3)[OF d] ne m by (simp add: parse_step_def)
  next
    case DELETE
    thus ?thesis using read_directive(2,4,5)[OF d] ne m by (simp add: parse_step_def)
  qed
qed

lemma parse_update_file_keeps:
  "parse_update_file p t = Some (Inr (a, p')) \<Longrightarrow> patch p' = patch p"
  unfolding parse_update_file_def using update_loop_keeps_patch by blast

lemma parse_add_file_keeps:
  "parse_add_file p = Inr (a, p') \<Longrightarrow> patch p' = patch p"
  by (auto simp: parse_add_file_def add_loop_body)

lemma step_patch:
  assumes "parse_step p = Some (Inr p')"
  shows "\<exists>k a. patch p' = AList.update k a (patch p)"
  using assms unfolding parse_step_def
  apply (auto split: sum.splits prod.splits if_splits option.splits
           dest!: read_str_patch parse_update_file_keeps parse_add_file_keeps)
  apply (rule exI, rule exI, rule refl)+
  done

lemma step_keys:
  assumes "parse_step p = Some (Inr p')"
  shows "fst ` set (patch p) \<subseteq> fst ` set (patch p')"
proof -
  obtain k a where "patch p' = AList.update k a (patch p)"
    using step_patch[OF assms] by blast
  thus ?thesis by (simp add: dom_update subset_insertI)
qed

lemma directive_registered:
  assumes d: "directive_at p k path" and s: "parse_step p = Some (Inr p1)"
  shows "path \<in> fst ` set (patch p1)"
proof -
  have ne: "path \<noteq> []" using d by (simp add: directive_at_def)
  show ?thesis
  proof (cases k)
    case UPDATE
    thus ?thesis using read_directive(1)[OF d] ne s
      by (auto simp: parse_step_def dom_update split: sum.splits option.splits if_splits)
  next
    case ADD
    thus ?thesis using read_directive(2,3)[OF d] ne s
      by (auto simp: parse_step_def dom_update split: sum.splits option.splits if_splits)
  next
    case DELETE
    thus ?thesis using read_directive(2,4,5)[OF d] ne s
      by (auto simp: parse_step_def dom_update split: sum.splits option.splits if_splits)
  qed
qed

lemma passes_loop: "passes n p1 = Some p2 \<Longrightarrow> parse_loop p1 = parse_loop p2"
proof (induction n arbitrary: p1)
  case 0
  thus ?case by simp
next
  case (Suc n)
  from Suc.prems obtain p' where nd: "\<not> is_done p1 [''*** End Patch'']"
    and st: "parse_step p1 = Some (Inr p')" and rest: "passes n p' = Some p2"
    by (auto split: if_splits option.splits sum.splits)
  have "parse_loop p1 = parse_loop p'" using nd st by (subst parse_loop.simps) simp
  thus ?case using Suc.IH[OF rest] by simp
qed

lemma passes_keys: "passes n p1 = Some p2 \<Longrightarrow> fst ` set (patch p1) \<subseteq> fst ` set (patch p2)"
proof (induction n arbitrary: p1)
  case 0
  thus ?case by simp
next
  case (Suc n)
  from Suc.prems obtain p' where st: "parse_step p1 = Some (Inr p')"
    and rest: "passes n p' = Some p2"
    by (auto split: if_splits option.splits sum.splits)
  show ?case using step_keys[OF st] Suc.IH[OF rest] by blast
qed

text \<open>
  Claim C6, amended. Let a directive of any kind for a path have been parsed without
  error, and let parsing have gone on, through any number of further directives parsed
  without error, to a line that is again a directive, of any kind, for the same path.
  Then parsing raises the duplicate path error of that second directive. An error of the
  parser leaves \<open>process_patch\<close> before it builds a commit: the error is returned with
  the world as the reading of the files left it, whatever the write and remove
  operations are.
\<close>

theorem duplicate_path_raises:
  assumes "directive_at p k1 path" and "parse_step p = Some (Inr p1)"
    and "passes n p1 = Some p2" and "directive_at p2 k2 path"
  shows "parse_loop p = Some (Inl (DuplicatePath k2 path)) \<and>
         (prefix ''*** Begin Patch'' patch_text \<and>
          open_all open_fn (identify_files_needed patch_text) Map.empty w = (Inr orig, w1) \<and>
          text_to_patch patch_text orig = Some (Inl err) \<longrightarrow>
            process_patch patch_text open_fn write_fn remove_fn w = Some (Inl err, w1))"
proof -
  have "path \<in> fst ` set (patch p1)" using assms(1,2) by (rule directive_registered)
  hence "path \<in> fst ` set (patch p2)" using passes_keys[OF assms(3)] by blast
  hence dup: "parse_step p2 = Some (Inl (DuplicatePath k2 path))"
    using assms(4) by (intro duplicate_detected)
  have "parse_loop p2 = Some (Inl (DuplicatePath k2 path))"
    using directive_not_done[OF assms(4)] dup by (subst parse_loop.simps) simp
  moreover have "parse_loop p = parse_loop p1"
    using directive_not_done[OF assms(1)] assms(2) by (subst parse_loop.simps) simp
  ultimately have A: "parse_loop p = Some (Inl (DuplicatePath k2 path))"
    using passes_loop[OF assms(3)] by simp
  show ?thesis using A by (simp add: process_patch_def)
qed

theorem duplicate_path_raises_witness:
  "parse_loop
     \<lparr>current_files = [''d'' \<mapsto> ''q''], lines = [''*** Delete File: d'', ''*** Add File: d''],
      index = 0, patch = [], fuzz = 0\<rparr> = Some (Inl (DuplicatePath ADD ''d'')) \<and>
   process_patch ''*** Begin Patch\<newline>*** Delete File: d\<newline>*** Add File: d''
     (\<lambda>p w. (Inr ''q'', w)) (\<lambda>p c w. (Inr (), Suc w)) (\<lambda>p w. (Inr (), Suc w)) (0::nat) =
   Some (Inl (DuplicatePath ADD ''d''), 0)"
proof -
  let ?p = "\<lparr>current_files = [''d'' \<mapsto> ''q''],
             lines = [''*** Delete File: d'', ''*** Add File: d''],
             index = 0, patch = [], fuzz = 0\<rparr>"
  let ?p1 = "\<lparr>current_files = [''d'' \<mapsto> ''q''],
             lines = [''*** Delete File: d'', ''*** Add File: d''],
             index = Suc 0,
             patch = [(''d'', \<lparr>pa_type = DELETE, new_file = None, chunks = [],
                               move_path = None\<rparr>)],
             fuzz = 0\<rparr>"
  let ?t = "''*** Begin Patch\<newline>*** Delete File: d\<newline>*** Add File: d''"
  have d1: "directive_at ?p DELETE ''d''" by (simp add: directive_at_def marker_def)
  have st: "parse_step ?p = Some (Inr ?p1)"
    by (simp add: parse_step_def read_str_def)
  have ps: "passes 0 ?p1 = Some ?p1" by simp
  have d2: "directive_at ?p1 ADD ''d''" by (simp add: directive_at_def marker_def)
  have sl: "splitlines ?t = [''*** Begin Patch'', ''*** Delete File: d'', ''*** Add File: d'']"
    by (simp add: splitlines_def is_linebreak_def)
  have op: "open_all (\<lambda>p w. (Inr ''q'', w)) (identify_files_needed ?t) Map.empty (0::nat) =
            (Inr [''d'' \<mapsto> ''q''], 0)"
    by (simp add: identify_files_needed_def sl List.map_filter_simps)
  have tp: "text_to_patch ?t [''d'' \<mapsto> ''q''] = Some (Inl (DuplicatePath ADD ''d''))"
    by code_simp
  have pf: "prefix ''*** Begin Patch'' ?t" by simp
  note th = duplicate_path_raises[OF d1 st ps d2, where patch_text = ?t
      and open_fn = "\<lambda>p w. (Inr ''q'', w)" and w = "0::nat" and orig = "[''d'' \<mapsto> ''q'']"
      and ?w1.0 = 0 and err = "DuplicatePath ADD ''d''"
      and write_fn = "\<lambda>p c w. (Inr (), Suc w)" and remove_fn = "\<lambda>p w. (Inr (), Suc w)"]
  show ?thesis using th op tp pf by blast
qed

text \<open>
  The claim as stated fails where parsing stops before the second directive: here the
  first of two Delete directives for the same path raises the missing file error.
\<close>

theorem duplicate_path_raises_counterexample:
  "text_to_patch ''*** Begin Patch\<newline>*** Delete File: q\<newline>*** Delete File: q'' Map.empty =
     Some (Inl (MissingFile DELETE ''q''))"
  by code_simp

subsection \<open>The header check\<close>

text \<open>
  Claim C7, amended. A text that does not start with the characters \<open>*** Begin Patch\<close>
  is refused at once with the malformed header error, by \<open>text_to_patch\<close> and by
  \<open>process_patch\<close>: nothing is parsed, and \<open>process_patch\<close> returns the world as it got it,
  whatever the injected operations are, so it has called none of them. The test is on
  the first characters of the text, not on its first line.
\<close>

theorem malformed_header:
  assumes "\<not> prefix ''*** Begin Patch'' patch_text"
  shows "text_to_patch patch_text orig = Some (Inl MalformedHeader) \<and>
         process_patch patch_text open_fn write_fn remove_fn w = Some (Inl MalformedHeader, w)"
  using assms by (simp add: text_to_patch_def process_patch_def)

theorem malformed_header_witness:
  "text_to_patch ''*** Update File: a'' [''a'' \<mapsto> ''x''] = Some (Inl MalformedHeader) \<and>
   process_patch ''*** Update File: a'' (log_open ''x'') log_write log_remove [] =
     Some (Inl MalformedHeader, [])"
  using malformed_header[of "''*** Update File: a''" "[''a'' \<mapsto> ''x'']" "log_open ''x''"
      log_write log_remove "[]"]
  by simp

text \<open>
  The claim as stated fails on a text whose first line only starts with the marker: its
  first line is not \<open>*** Begin Patch\<close>, and it is taken as a patch with no directive.
\<close>

theorem malformed_header_counterexample:
  "splitlines ''*** Begin Patchwork'' = [''*** Begin Patchwork''] \<and>
   ''*** Begin Patchwork'' \<noteq> ''*** Begin Patch'' \<and>
   text_to_patch ''*** Begin Patchwork'' Map.empty = Some (Inr ([], 0)) \<and>
   process_patch ''*** Begin Patchwork'' (log_open ''x'') log_write log_remove [] =
     Some (Inr ''Done!'', [])"
  by code_simp

subsection \<open>The Applicator\<close>

lemma apply_changes_append:
  "apply_changes write_fn remove_fn (xs @ ys) w =
     (case apply_changes write_fn remove_fn xs w of
        (Inl e, w1) \<Rightarrow> (Inl e, w1)
      | (Inr u, w1) \<Rightarrow> apply_changes write_fn remove_fn ys w1)"
  by (induction xs arbitrary: w) (auto split: prod.splits sum.splits)

text \<open>
  Claim C8. For an Update change with a rename target (a non-empty path), wherever it
  stands in the commit and whatever the injected operations are, the applicator calls
  the write operation on the target with the new content, in the world that the changes
  before it left, and then, if the write did not fail, the remove operation on the
  original path, in the world that the write left; only then does it go on. With
  operations that record their calls, the record of such a change is the write followed
  by the remove. When every change has been applied without failure, \<open>process_patch\<close>
  returns the token \<open>Done!\<close>.
\<close>

theorem rename_writes_then_removes:
  assumes "fc_type change = UPDATE" and "fc_move_path change = Some target" and "target \<noteq> []"
  shows "apply_changes write_fn remove_fn (before @ (path, change) # after) w =
           (case apply_changes write_fn remove_fn before w of
              (Inl e, w1) \<Rightarrow> (Inl e, w1)
            | (Inr u, w1) \<Rightarrow>
               (case write_fn target (content_or_empty (new_content change)) w1 of
                  (Inl e, w2) \<Rightarrow> (Inl e, w2)
                | (Inr u, w2) \<Rightarrow>
                   (case remove_fn path w2 of
                      (Inl e, w3) \<Rightarrow> (Inl e, w3)
                    | (Inr u, w3) \<Rightarrow> apply_changes write_fn remove_fn after w3))) \<and>
         apply_change log_write log_remove path change log =
           (Inr (), log @ [WriteCall target (content_or_empty (new_content change)),
                           RemoveCall path]) \<and>
         (prefix ''*** Begin Patch'' patch_text \<and>
          open_all open_fn (identify_files_needed patch_text) Map.empty w = (Inr orig, wr) \<and>
          text_to_patch patch_text orig = Some (Inr (parsed, fz)) \<and>
          patch_to_commit parsed orig = Inr commit \<and>
          apply_changes write_fn remove_fn commit wr = (Inr (), wd) \<longrightarrow>
            process_patch patch_text open_fn write_fn remove_fn w = Some (Inr ''Done!'', wd))"
proof -
  have ac: "apply_change wf rf path change v =
      (case wf target (content_or_empty (new_content change)) v of
         (Inl e, w2) \<Rightarrow> (Inl e, w2) | (Inr u, w2) \<Rightarrow> rf path w2)" for wf rf and v :: 'b
    using assms by (simp add: apply_change_def truthy_def)
  have A: "apply_changes write_fn remove_fn (before @ (path, change) # after) w =
           (case apply_changes write_fn remove_fn before w of
              (Inl e, w1) \<Rightarrow> (Inl e, w1)
            | (Inr u, w1) \<Rightarrow>
               (case write_fn target (content_or_empty (new_content change)) w1 of
                  (Inl e, w2) \<Rightarrow> (Inl e, w2)
                | (Inr u, w2) \<Rightarrow>
                   (case remove_fn path w2 of
                      (Inl e, w3) \<Rightarrow> (Inl e, w3)
                    | (Inr u, w3) \<Rightarrow> apply_changes write_fn remove_fn after w3)))"
    by (simp add: apply_changes_append ac split: prod.splits sum.splits)
  have B: "apply_change log_write log_remove path change log =
           (Inr (), log @ [WriteCall target (content_or_empty (new_content change)),
                           RemoveCall path])"
    by (simp add: ac log_write_def log_remove_def)
  show ?thesis using A B by (simp add: process_patch_def)
qed

theorem rename_writes_then_removes_witness:
  "process_patch
     ''*** Begin Patch\<newline>*** Update File: a.py\<newline>*** Move to: b.py\<newline>@@ \<newline>x\<newline>-y\<newline>+w\<newline>z\<newline>*** End Patch''
     (log_open ''x\<newline>y\<newline>z\<newline>'') log_write log_remove [] =
   Some (Inr ''Done!'',
         [ReadCall ''a.py'', WriteCall ''b.py'' ''x\<newline>w\<newline>z\<newline>'', RemoveCall ''a.py''])"
proof -
  let ?t = "''*** Begin Patch\<newline>*** Update File: a.py\<newline>*** Move to: b.py\<newline>@@ \<newline>x\<newline>-y\<newline>+w\<newline>z\<newline>*** End Patch''"
  let ?c = "''x\<newline>y\<newline>z\<newline>''"
  let ?action = "\<lparr>pa_type = UPDATE, new_file = None,
      chunks = [\<lparr>orig_index = 0, del_lines = [''x'', ''y'', ''z''],
                 ins_lines = [''x'', ''w'', ''z'']\<rparr>],
      move_path = Some ''b.py''\<rparr>"
  let ?change = "\<lparr>fc_type = UPDATE, old_content = Some ?c,
      new_content = Some ''x\<newline>w\<newline>z\<newline>'', fc_move_path = Some ''b.py''\<rparr>"
  have sl: "splitlines ?t = [''*** Begin Patch'', ''*** Update File: a.py'', ''*** Move to: b.py'',
      ''@@ '', ''x'', ''-y'', ''+w'', ''z'', ''*** End Patch'']"
    by (simp add: splitlines_def is_linebreak_def)
  have op: "open_all (log_open ?c) (identify_files_needed ?t) Map.empty [] =
            (Inr [''a.py'' \<mapsto> ?c], [ReadCall ''a.py''])"
    by (simp add: identify_files_needed_def sl List.map_filter_simps log_open_def)
  have tp: "text_to_patch ?t [''a.py'' \<mapsto> ?c] = Some (Inr ([(''a.py'', ?action)], 0))"
    by code_simp
  have pc: "patch_to_commit [(''a.py'', ?action)] [''a.py'' \<mapsto> ?c] = Inr [(''a.py'', ?change)]"
    by code_simp
  have ap: "apply_changes log_write log_remove [(''a.py'', ?change)] [ReadCall ''a.py''] =
            (Inr (), [ReadCall ''a.py'', WriteCall ''b.py'' ''x\<newline>w\<newline>z\<newline>'',
                      RemoveCall ''a.py''])"
    using rename_writes_then_removes[where change = ?change and target = "''b.py''"
        and before = "[]" and after = "[]" and path = "''a.py''"
        and write_fn = log_write and remove_fn = log_remove and w = "[ReadCall ''a.py'']"]
    by (simp add: log_write_def log_remove_def content_or_empty_def)
  have pf: "prefix ''*** Begin Patch'' ?t" by simp
  note th = rename_writes_then_removes[where change = ?change and target = "''b.py''"
        and path = "''a.py''" and patch_text = ?t and open_fn = "log_open ?c"
        and write_fn = log_write and remove_fn = log_remove and w = "[]"
        and orig = "[''a.py'' \<mapsto> ?c]" and wr = "[ReadCall ''a.py'']"
        and parsed = "[(''a.py'', ?action)]" and fz = 0 and commit = "[(''a.py'', ?change)]"
        and wd = "[ReadCall ''a.py'', WriteCall ''b.py'' ''x\<newline>w\<newline>z\<newline>'',
                      RemoveCall ''a.py'']"]
  have "fc_type ?change = UPDATE" "fc_move_path ?change = Some ''b.py''" "''b.py'' \<noteq> []"
    by simp_all
  from th[OF this] show ?thesis using op tp pc ap pf by blast
qed

end
